theory Spec2Isabelle
  imports Complex_Main "HOL-Library.Word"
begin

section \<open>Conventions of the embedding\<close>

text \<open>
  The repository holds two variants of one instrument: \<^verbatim>\<open>src/AudioVisualizer.svelte\<close>
  (continuous glide, cursor reset at the right edge) and \<^verbatim>\<open>app.sveltep\<close> (discrete notes,
  cursor turning round at both edges). Both are embedded below, function by function.

  \<^item> A JavaScript number is an IEEE 754 double, here a \<open>real\<close> that a double can hold.
    Where a result decides a branch or a pixel row (the cursor steps and their comparisons
    with the edges, the sample rows, the time between notes) every sum, product and quotient
    is rounded by \<open>roundDouble\<close>, as the machine rounds it. In the pitch mapping, the
    brightness and the contrast the real value stands for the double next to it.
    Whole numbers (pixel coordinates, buffer indices, voice counts) are \<open>int\<close> or \<open>nat\<close>.
  \<^item> \<open>undefined\<close> and \<open>NaN\<close> are \<open>None\<close>: an array read outside the array is
    \<open>undefined\<close>, and arithmetic on \<open>undefined\<close> is \<open>NaN\<close>.
  \<^item> The pixel buffer of an \<open>ImageData\<close> is a \<open>Uint8ClampedArray\<close>, a list of bytes.
  \<^item> What the browser and the audio library supply (the clock \<open>Tone.now()\<close>, the pixels
    \<open>getImageData\<close> returns, the settings of a fresh \<open>Tone.Synth\<close>) is an argument.
  \<^item> The audio library refuses \<open>NaN\<close>: \<open>frequency.rampTo(NaN)\<close> and an envelope time
    \<open>NaN\<close> in \<open>set\<close> throw, and the exception leaves the tick where it is.
  \<^item> A call of \<open>requestAnimationFrame\<close> sets the flag \<open>scheduled\<close>; the callback clears
    it when it starts to run.
\<close>

section \<open>Doubles\<close>

text \<open>
  Rounding to the nearest double, ties to the even neighbour. A double has 53 significant
  bits: between \<open>2^e\<close> and \<open>2^(e+1)\<close> the doubles are the multiples of \<open>2^(e-52)\<close>, and
  below \<open>2^(-1022)\<close> they keep the spacing \<open>2^(-1074)\<close>. Overflow to \<open>Infinity\<close> (beyond
  \<open>2^1024\<close>) is left out: no quantity of the instrument comes near it.
\<close>

definition binade :: "real \<Rightarrow> int" where
  "binade x = max \<lfloor>log 2 \<bar>x\<bar>\<rfloor> (- 1022)"

definition ulp :: "real \<Rightarrow> real" where
  "ulp x = 2 powr (real_of_int (binade x) - 52)"

definition roundEven :: "real \<Rightarrow> int" where
  "roundEven q =
     (let f = \<lfloor>q\<rfloor>; r = q - real_of_int f
      in if r < 1 / 2 then f else if r > 1 / 2 then f + 1 else if even f then f else f + 1)"

definition roundDouble :: "real \<Rightarrow> real" where
  "roundDouble x = (if x = 0 then 0 else ulp x * real_of_int (roundEven (x / ulp x)))"

section \<open>Synthesizer voices\<close>

record voice =
  volume :: real
  oscillatorType :: string
  attack :: "real option"
  release :: "real option"
  frequency :: "real option"
  sounding :: bool

text \<open>\<open>synth.triggerAttack(f)\<close> and \<open>synth.triggerRelease()\<close>.\<close>

definition triggerAttack :: "real \<Rightarrow> voice \<Rightarrow> voice" where
  "triggerAttack f v = v\<lparr>frequency := Some f, sounding := True\<rparr>"

definition triggerRelease :: "voice \<Rightarrow> voice" where
  "triggerRelease v = v\<lparr>sounding := False\<rparr>"

text \<open>\<open>synth.frequency.rampTo(f, 0.1, now)\<close> for a number \<open>f\<close>: the voice glides to the
  target \<open>f\<close>.\<close>

definition rampTo :: "real \<Rightarrow> voice \<Rightarrow> voice" where
  "rampTo f v = v\<lparr>frequency := Some f\<rparr>"

section \<open>AudioVisualizer.svelte\<close>

subsection \<open>State\<close>

record controls =
  c_volume :: real
  c_octave :: int
  c_baseNote :: string
  c_cursorSpeed :: real
  c_oscillatorType :: string
  c_voiceCount :: nat

record video =
  videoWidth :: nat
  videoHeight :: nat

record av_state =
  inputType :: string
  imageData :: "8 word list option"
  videoElement :: "video option"
  canvasWidth :: nat
  canvasHeight :: nat
  ctl :: controls
  synths :: "voice list"
  cursorPosition :: real
  isPlaying :: bool
  mediaLoaded :: bool
  showModal :: bool
  scheduled :: bool
  overlay :: "(int \<times> int) list"

definition noteFrequencies :: "string \<Rightarrow> real option" where
  "noteFrequencies = map_of
     [(''C'', 261.63), (''C#'', 277.18), (''D'', 293.66), (''D#'', 311.13), (''E'', 329.63),
      (''F'', 349.23), (''F#'', 369.99), (''G'', 392.00), (''G#'', 415.30), (''A'', 440.00),
      (''A#'', 466.16), (''B'', 493.88)]"

subsection \<open>The tick body: one voice\<close>

text \<open>\<open>imageData.data[index]\<close>: a read outside the buffer is \<open>undefined\<close>.\<close>

definition byteAt :: "8 word list \<Rightarrow> int \<Rightarrow> real option" where
  "byteAt d k = (if 0 \<le> k \<and> k < int (length d) then Some (real (unat (d ! nat k))) else None)"

text \<open>\<open>imageData.data[index] / 255\<close>; \<open>undefined / 255\<close> is \<open>NaN\<close>.\<close>

definition channel :: "8 word list \<Rightarrow> int \<Rightarrow> real option" where
  "channel d k = map_option (\<lambda>v. v / 255) (byteAt d k)"

text \<open>\<open>y = Math.floor(sourceHeight / controls.voiceCount * (i + 0.5))\<close>\<close>

definition samplePointY :: "nat \<Rightarrow> nat \<Rightarrow> nat \<Rightarrow> int" where
  "samplePointY sourceHeight voiceCount i =
     \<lfloor>roundDouble (roundDouble (real sourceHeight / real voiceCount)
                    * roundDouble (real i + 0.5))\<rfloor>"

text \<open>\<open>index = (y * sourceWidth + x) * 4\<close> and the four channel reads.\<close>

definition pixelIndex :: "nat \<Rightarrow> int \<Rightarrow> int \<Rightarrow> int" where
  "pixelIndex sourceWidth x y = (y * int sourceWidth + x) * 4"

definition pixelLookup :: "8 word list \<Rightarrow> nat \<Rightarrow> int \<Rightarrow> int
    \<Rightarrow> real option \<times> real option \<times> real option \<times> real option" where
  "pixelLookup d sourceWidth x y =
     (let index = pixelIndex sourceWidth x y
      in (channel d index, channel d (index + 1), channel d (index + 2), channel d (index + 3)))"

text \<open>\<open>colorValue = (r + g + b) / 3\<close>\<close>

definition colorValue :: "real option \<times> real option \<times> real option \<times> real option \<Rightarrow> real option" where
  "colorValue px = (case px of
       (Some r, Some g, Some b, _) \<Rightarrow> Some ((r + g + b) / 3)
     | _ \<Rightarrow> None)"

text \<open>\<open>frequency = noteFrequencies[controls.baseNote] * Math.pow(2, controls.octave - 4 + colorValue)\<close>\<close>

definition glideFrequency :: "string \<Rightarrow> int \<Rightarrow> real option \<Rightarrow> real option" where
  "glideFrequency baseNote octave cv = (case (noteFrequencies baseNote, cv) of
       (Some f, Some c) \<Rightarrow> Some (f * 2 powr (real_of_int octave - 4 + c))
     | _ \<Rightarrow> None)"

definition voiceFrequency :: "controls \<Rightarrow> 8 word list \<Rightarrow> nat \<Rightarrow> nat \<Rightarrow> real \<Rightarrow> nat \<Rightarrow> real option" where
  "voiceFrequency c d sourceWidth sourceHeight pos i =
     glideFrequency (c_baseNote c) (c_octave c)
       (colorValue (pixelLookup d sourceWidth \<lfloor>pos\<rfloor> (samplePointY sourceHeight (c_voiceCount c) i)))"

text \<open>The \<open>for\<close> loop over the voices: \<open>if (synths[i]) synths[i].frequency.rampTo(...)\<close>.
  A frequency \<open>NaN\<close> makes \<open>rampTo\<close> throw: the result \<open>False\<close>, with the voices as they
  are by then.\<close>

fun driveVoices :: "controls \<Rightarrow> 8 word list \<Rightarrow> nat \<Rightarrow> nat \<Rightarrow> real \<Rightarrow> nat list \<Rightarrow> voice list
    \<Rightarrow> bool \<times> voice list" where
  "driveVoices c d sourceWidth sourceHeight pos [] vs = (True, vs)"
| "driveVoices c d sourceWidth sourceHeight pos (i # is) vs =
     (if i < length vs
      then (case voiceFrequency c d sourceWidth sourceHeight pos i of
              None \<Rightarrow> (False, vs)
            | Some f \<Rightarrow> driveVoices c d sourceWidth sourceHeight pos is (vs[i := rampTo f (vs ! i)]))
      else driveVoices c d sourceWidth sourceHeight pos is vs)"

definition tickSamplePoints :: "controls \<Rightarrow> nat \<Rightarrow> real \<Rightarrow> (int \<times> int) list" where
  "tickSamplePoints c sourceHeight pos =
     map (\<lambda>i. (\<lfloor>pos\<rfloor>, samplePointY sourceHeight (c_voiceCount c) i)) [0..<c_voiceCount c]"

subsection \<open>The cursor: reset at the right edge\<close>

text \<open>\<open>cursorPosition += controls.cursorSpeed; if (cursorPosition >= sourceWidth) cursorPosition = 0;\<close>\<close>

definition advanceCursor :: "real \<Rightarrow> real \<Rightarrow> real \<Rightarrow> real" where
  "advanceCursor speed sourceWidth pos =
     (let pos' = roundDouble (pos + speed) in if pos' \<ge> sourceWidth then 0 else pos')"

subsection \<open>updateAudio\<close>

text \<open>
  The three early \<open>return\<close>s of \<open>updateAudio\<close> leave the function before its last line,
  \<open>animationId = requestAnimationFrame(updateAudio)\<close>. \<open>readySource\<close> is the part before
  \<open>getImageData\<close>: \<open>None\<close> is an early return, otherwise the source size and the canvas
  resized to it.
\<close>

definition videoTypes :: "string list" where
  "videoTypes = [''video'', ''webcam'', ''screen'']"

definition readySource :: "av_state \<Rightarrow> (nat \<times> nat \<times> av_state) option" where
  "readySource st =
     (if inputType st = ''image'' then
        (case imageData st of
           None \<Rightarrow> None
         | Some _ \<Rightarrow> Some (canvasWidth st, canvasHeight st, st))
      else if inputType st \<in> set videoTypes then
        (case videoElement st of
           None \<Rightarrow> None
         | Some v \<Rightarrow>
             if videoWidth v = 0 then None
             else Some (videoWidth v, videoHeight v,
                        st\<lparr>canvasWidth := videoWidth v, canvasHeight := videoHeight v\<rparr>))
      else None)"

text \<open>\<open>grabbed\<close> is what \<open>ctx.getImageData(0, 0, sourceWidth, sourceHeight)\<close> returns on this tick.\<close>

definition updateAudio :: "8 word list \<Rightarrow> av_state \<Rightarrow> av_state" where
  "updateAudio grabbed st0 =
     (let st = st0\<lparr>scheduled := False\<rparr> in
      case readySource st of
        None \<Rightarrow> st
      | Some (sourceWidth, sourceHeight, st1) \<Rightarrow>
          let st2 = st1\<lparr>imageData := Some grabbed\<rparr>;
              c = ctl st2;
              pos = cursorPosition st2;
              driven = driveVoices c grabbed sourceWidth sourceHeight pos
                         [0..<c_voiceCount c] (synths st2)
          in if fst driven
             then st2\<lparr>synths := snd driven,
                      cursorPosition := advanceCursor (c_cursorSpeed c) (real sourceWidth) pos,
                      overlay := tickSamplePoints c sourceHeight pos,
                      scheduled := True\<rparr>
             else st2\<lparr>synths := snd driven\<rparr>)"

subsection \<open>Starting and pausing\<close>

text \<open>\<open>startAudio\<close>: every voice takes the shared timbre and volume and attacks at 440 Hz;
  the first tick is requested.\<close>

definition startAudio :: "av_state \<Rightarrow> av_state" where
  "startAudio st =
     st\<lparr>synths := map (\<lambda>v. triggerAttack 440
                         (v\<lparr>oscillatorType := c_oscillatorType (ctl st), volume := c_volume (ctl st)\<rparr>))
                       (synths st),
        scheduled := True\<rparr>"

definition pauseAudio :: "av_state \<Rightarrow> av_state" where
  "pauseAudio st = st\<lparr>synths := map triggerRelease (synths st), scheduled := False\<rparr>"

definition togglePlay :: "av_state \<Rightarrow> av_state" where
  "togglePlay st =
     (if (inputType st = ''image'' \<or> inputType st = ''video'') \<and> \<not> mediaLoaded st
      then st\<lparr>showModal := True\<rparr>
      else if isPlaying st then (pauseAudio st)\<lparr>isPlaying := False\<rparr>
      else (startAudio st)\<lparr>isPlaying := True\<rparr>)"

subsection \<open>updateVoiceCount\<close>

text \<open>\<open>while (synths.length > value) { const synth = synths.pop(); synth.dispose(); }\<close>\<close>

function popVoices :: "nat \<Rightarrow> voice list \<Rightarrow> voice list" where
  "popVoices value vs = (if length vs > value then popVoices value (butlast vs) else vs)"
  by pat_completeness auto
termination
  by (relation "measure (\<lambda>(value, vs). length vs)") auto

text \<open>The synth one turn of the second loop pushes: made from \<open>fresh\<close>, a new
  \<open>Tone.Synth\<close>, given the shared volume and oscillator type, attacked when playing.\<close>

definition grownVoice :: "voice \<Rightarrow> controls \<Rightarrow> bool \<Rightarrow> voice" where
  "grownVoice fresh c playing =
     (let synth = fresh\<lparr>volume := c_volume c, oscillatorType := c_oscillatorType c\<rparr>
      in if playing then triggerAttack 440 synth else synth)"

function pushVoices :: "voice \<Rightarrow> controls \<Rightarrow> bool \<Rightarrow> nat \<Rightarrow> voice list \<Rightarrow> voice list" where
  "pushVoices fresh c playing value vs =
     (if length vs < value
      then pushVoices fresh c playing value (vs @ [grownVoice fresh c playing])
      else vs)"
  by pat_completeness auto
termination
  by (relation "measure (\<lambda>(fresh, c, playing, value, vs). value - length vs)") auto

definition updateVoiceCount :: "voice \<Rightarrow> nat \<Rightarrow> av_state \<Rightarrow> av_state" where
  "updateVoiceCount fresh value st =
     st\<lparr>synths := pushVoices fresh (ctl st) (isPlaying st) value (popVoices value (synths st))\<rparr>"

text \<open>A voice carries the shared settings of the controls.\<close>

definition sharesSettings :: "controls \<Rightarrow> voice \<Rightarrow> bool" where
  "sharesSettings c v = (volume v = c_volume c \<and> oscillatorType v = c_oscillatorType c)"

section \<open>app.sveltep\<close>

subsection \<open>State\<close>

record canvas =
  width :: nat
  height :: nat

datatype scaleName = major | minor | pentatonic | chromatic

record app_state =
  app_canvas :: "canvas option"
  app_imageData :: "8 word list option"
  app_cursorPosition :: real
  app_isPlaying :: bool
  direction :: real
  lastPlayTime :: real
  octave :: int
  baseNote :: string
  cursorSpeed :: real
  waveform :: string
  scale :: scaleName
  numberOfNotes :: nat
  app_synths :: "voice list"
  samplePoints :: "int option list"
  app_scheduled :: bool

text \<open>The literal \<open>0.1\<close> is the double next to one tenth.\<close>

definition minTimeBetweenNotes :: real where
  "minTimeBetweenNotes = roundDouble 0.1"

fun scales :: "scaleName \<Rightarrow> int list" where
  "scales major = [0, 2, 4, 5, 7, 9, 11, 12]"
| "scales minor = [0, 2, 3, 5, 7, 8, 10, 12]"
| "scales pentatonic = [0, 2, 4, 7, 9, 12]"
| "scales chromatic = [0, 1, 2, 3, 4, 5, 6, 7, 8, 9, 10, 11, 12]"

subsection \<open>updateSynths and updateSamplePoints\<close>

text \<open>\<open>Math.floor(i * (canvas.height - 1) / (numberOfNotes - 1))\<close>: the product is rounded,
  then the quotient. With one note the divisor is 0 and the quotient is \<open>0 / 0\<close>, which is
  \<open>NaN\<close>.\<close>

definition spacedPoint :: "nat \<Rightarrow> nat \<Rightarrow> nat \<Rightarrow> int option" where
  "spacedPoint h n i =
     (if int n - 1 = 0 then None
      else Some \<lfloor>roundDouble (roundDouble (real_of_int (int i * (int h - 1)))
                                / real_of_int (int n - 1))\<rfloor>)"

definition updateSamplePoints :: "app_state \<Rightarrow> app_state" where
  "updateSamplePoints st =
     (case app_canvas st of
        None \<Rightarrow> st
      | Some c \<Rightarrow>
          if height c \<noteq> 0
          then st\<lparr>samplePoints := map (spacedPoint (height c) (numberOfNotes st)) [0..<numberOfNotes st]\<rparr>
          else st)"

text \<open>\<open>updateSynths\<close> disposes of every synth and makes \<open>numberOfNotes\<close> new ones.\<close>

definition updateSynths :: "voice \<Rightarrow> app_state \<Rightarrow> app_state" where
  "updateSynths fresh st = updateSamplePoints (st\<lparr>app_synths := replicate (numberOfNotes st) fresh\<rparr>)"

subsection \<open>Brightness and contrast\<close>

text \<open>\<open>getBrightnessAtPoint(x, y)\<close>; \<open>y\<close> is a sample point, which can be \<open>NaN\<close>.\<close>

definition getBrightnessAtPoint :: "8 word list option \<Rightarrow> nat \<Rightarrow> int \<Rightarrow> int option \<Rightarrow> real option" where
  "getBrightnessAtPoint img canvasW x y =
     (case img of
        None \<Rightarrow> Some 0
      | Some d \<Rightarrow>
          (case y of
             None \<Rightarrow> None
           | Some y' \<Rightarrow>
               (let index = (y' * int canvasW + x) * 4
                in case (byteAt d index, byteAt d (index + 1), byteAt d (index + 2)) of
                     (Some r, Some g, Some b) \<Rightarrow> Some ((r + g + b) / (3 * 255))
                   | _ \<Rightarrow> None)))"

text \<open>\<open>Math.max(0, Math.min(n - 1, v))\<close>\<close>

definition clampCoord :: "nat \<Rightarrow> int \<Rightarrow> int" where
  "clampCoord n v = max 0 (min (int n - 1) v)"

text \<open>\<open>Math.min\<close> and \<open>Math.max\<close> return \<open>NaN\<close> as soon as one argument is \<open>NaN\<close>.\<close>

definition jsMin :: "real option \<Rightarrow> real option \<Rightarrow> real option" where
  "jsMin a b = (case (a, b) of (Some x, Some y) \<Rightarrow> Some (min x y) | _ \<Rightarrow> None)"

definition jsMax :: "real option \<Rightarrow> real option \<Rightarrow> real option" where
  "jsMax a b = (case (a, b) of (Some x, Some y) \<Rightarrow> Some (max x y) | _ \<Rightarrow> None)"

definition radius :: int where
  "radius = 5"

text \<open>The offsets in the order of the two nested loops, \<open>dy\<close> outside.\<close>

definition windowOffsets :: "(int \<times> int) list" where
  "windowOffsets = concat (map (\<lambda>dy. map (\<lambda>dx. (dx, dy)) [- radius..radius]) [- radius..radius])"

definition contrastStep :: "8 word list option \<Rightarrow> canvas \<Rightarrow> int \<Rightarrow> int option \<Rightarrow> int \<times> int
    \<Rightarrow> real option \<times> real option \<Rightarrow> real option \<times> real option" where
  "contrastStep img c x y off acc =
     (let nx = clampCoord (width c) (x + fst off);
          ny = map_option (\<lambda>y'. clampCoord (height c) (y' + snd off)) y;
          brightness = map_option (\<lambda>b. b * 255) (getBrightnessAtPoint img (width c) nx ny)
      in (jsMin (fst acc) brightness, jsMax (snd acc) brightness))"

definition getContrastAroundPoint :: "8 word list option \<Rightarrow> canvas \<Rightarrow> int \<Rightarrow> int option \<Rightarrow> real option" where
  "getContrastAroundPoint img c x y =
     (case img of
        None \<Rightarrow> Some 0
      | Some _ \<Rightarrow>
          (case fold (contrastStep img c x y) windowOffsets (Some 255, Some 0) of
             (Some mn, Some mx) \<Rightarrow> Some ((mx - mn) / 255)
           | _ \<Rightarrow> None))"

subsection \<open>From brightness to a note\<close>

text \<open>\<open>noteIndex = Math.floor(brightness * (scales[scale].length - 1))\<close>\<close>

definition noteIndex :: "int list \<Rightarrow> real option \<Rightarrow> int option" where
  "noteIndex table brightness =
     map_option (\<lambda>b. \<lfloor>b * real_of_int (int (length table) - 1)\<rfloor>) brightness"

text \<open>\<open>scaleStep = scales[scale][noteIndex] || 0\<close>: 0 stands in for \<open>undefined\<close>, read at a
  \<open>NaN\<close> index or outside the table (and for an entry that is 0).\<close>

definition scaleStep :: "int list \<Rightarrow> int option \<Rightarrow> int" where
  "scaleStep table idx =
     (case idx of
        None \<Rightarrow> 0
      | Some k \<Rightarrow> if 0 \<le> k \<and> k < int (length table) then table ! nat k else 0)"

text \<open>\<open>frequency = baseFreq * Math.pow(2, scaleStep / 12)\<close>, where \<open>baseFreq\<close> is what
  \<open>Tone.Frequency(baseNote + octave).toFrequency()\<close> returns.\<close>

definition noteFrequency :: "real \<Rightarrow> int list \<Rightarrow> real option \<Rightarrow> real" where
  "noteFrequency baseFreq table brightness =
     baseFreq * 2 powr (real_of_int (scaleStep table (noteIndex table brightness)) / 12)"

text \<open>\<open>attackTime = 0.005 + (1 - contrast) * 0.095\<close>, \<open>releaseTime = 0.1 + contrast * 0.9\<close>\<close>

definition attackTime :: "real option \<Rightarrow> real option" where
  "attackTime contrast = map_option (\<lambda>c. 0.005 + (1 - c) * 0.095) contrast"

definition releaseTime :: "real option \<Rightarrow> real option" where
  "releaseTime contrast = map_option (\<lambda>c. 0.1 + c * 0.9) contrast"

subsection \<open>scan\<close>

text \<open>One note event: the voice, its frequency and the time it is triggered at.\<close>

type_synonym onset = "nat \<times> real \<times> real"

text \<open>\<open>synths[index].set({envelope, oscillator})\<close> and
  \<open>synths[index].triggerAttackRelease(frequency, '8n', currentTime)\<close>: the note sounds for an
  eighth and is released by the library.\<close>

definition playNote :: "real \<Rightarrow> real \<Rightarrow> string \<Rightarrow> real \<Rightarrow> voice \<Rightarrow> voice" where
  "playNote att rel wave f v =
     v\<lparr>attack := Some att, release := Some rel, oscillatorType := wave, frequency := Some f\<rparr>"

text \<open>The callback of \<open>samplePoints.forEach\<close>, point by point. \<open>synths[index]\<close> is
  \<open>undefined\<close> past the end of \<open>synths\<close>, and calling \<open>set\<close> on it throws; \<open>set\<close> throws
  as well when the envelope times are \<open>NaN\<close>, before the note is triggered. Then the result is
  \<open>False\<close>, with the voices and onsets up to there.\<close>

fun playPoints :: "real \<Rightarrow> real \<Rightarrow> app_state \<Rightarrow> canvas \<Rightarrow> (nat \<times> int option) list
    \<Rightarrow> voice list \<Rightarrow> onset list \<Rightarrow> bool \<times> voice list \<times> onset list" where
  "playPoints baseFreq currentTime st c [] vs ons = (True, vs, ons)"
| "playPoints baseFreq currentTime st c ((index, y) # ps) vs ons =
     (let x = \<lfloor>app_cursorPosition st\<rfloor>;
          brightness = getBrightnessAtPoint (app_imageData st) (width c) x y;
          contrast = getContrastAroundPoint (app_imageData st) c x y;
          f = noteFrequency baseFreq (scales (scale st)) brightness
      in if index < length vs
         then (case (attackTime contrast, releaseTime contrast) of
                 (Some att, Some rel) \<Rightarrow>
                   playPoints baseFreq currentTime st c ps
                     (vs[index := playNote att rel (waveform st) f (vs ! index)])
                     (ons @ [(index, f, currentTime)])
               | _ \<Rightarrow> (False, vs, ons))
         else (False, vs, ons))"

text \<open>The cursor: \<open>cursorPosition += direction * cursorSpeed\<close>, and past either edge
  \<open>direction *= -1; cursorPosition += direction * cursorSpeed\<close>.\<close>

definition bounceStep :: "real \<Rightarrow> real \<Rightarrow> real \<times> real \<Rightarrow> real \<times> real" where
  "bounceStep canvasW speed pd =
     (let pos = roundDouble (fst pd + roundDouble (snd pd * speed))
      in if pos \<ge> canvasW \<or> pos < 0
         then (let dir = roundDouble (snd pd * (- 1))
               in (roundDouble (pos + roundDouble (dir * speed)), dir))
         else (pos, snd pd))"

datatype outcome = Returned | Threw

text \<open>\<open>scan\<close>, given the base frequency the library computes and the time \<open>Tone.now()\<close>.
  \<open>ctx.putImageData(imageData, 0, 0)\<close> throws when no image data was ever read.\<close>

definition scan :: "real \<Rightarrow> real \<Rightarrow> app_state \<Rightarrow> outcome \<times> app_state \<times> onset list" where
  "scan baseFreq currentTime st0 =
     (let st = st0\<lparr>app_scheduled := False\<rparr> in
      case app_canvas st of
        None \<Rightarrow> (Returned, st, [])
      | Some c \<Rightarrow>
          if \<not> app_isPlaying st then (Returned, st, [])
          else
            (let due = (roundDouble (currentTime - lastPlayTime st) \<ge> minTimeBetweenNotes);
                 played = (if due
                           then playPoints baseFreq currentTime st c
                                  (zip [0..<length (samplePoints st)] (samplePoints st))
                                  (app_synths st) []
                           else (True, app_synths st, []));
                 st1 = st\<lparr>app_synths := fst (snd played)\<rparr>
             in if \<not> fst played then (Threw, st1, snd (snd played))
                else
                  (let st2 = (if due then st1\<lparr>lastPlayTime := currentTime\<rparr> else st1);
                       moved = bounceStep (real (width c)) (cursorSpeed st2)
                                 (app_cursorPosition st2, direction st2);
                       st3 = st2\<lparr>app_cursorPosition := fst moved, direction := snd moved\<rparr>
                   in case app_imageData st3 of
                        None \<Rightarrow> (Threw, st3, snd (snd played))
                      | Some _ \<Rightarrow> (Returned, st3\<lparr>app_scheduled := True\<rparr>, snd (snd played)))))"

text \<open>\<open>togglePlay\<close> of app.sveltep.\<close>

definition app_togglePlay :: "real \<Rightarrow> app_state \<Rightarrow> app_state" where
  "app_togglePlay now st =
     (let st1 = st\<lparr>app_isPlaying := \<not> app_isPlaying st\<rparr>
      in if app_isPlaying st1 then st1\<lparr>lastPlayTime := now, app_scheduled := True\<rparr> else st1)"

section \<open>Mounting the component\<close>

text \<open>A fresh \<open>Tone.Synth\<close> as the library documents it: 0 dB, a triangle oscillator, attack
  0.005 s, release 1 s, silent.\<close>

definition toneSynth :: voice where
  "toneSynth = \<lparr>volume = 0, oscillatorType = ''triangle'', attack = Some 0.005, release = Some 1,
                 frequency = None, sounding = False\<rparr>"

definition initialControls :: controls where
  "initialControls = \<lparr>c_volume = -10, c_octave = 4, c_baseNote = ''C'', c_cursorSpeed = 1,
                       c_oscillatorType = ''sine'', c_voiceCount = 4\<rparr>"

text \<open>The component after \<open>onMount\<close>: \<open>controls.voiceCount\<close> fresh synths, a canvas of the
  default size 300 x 150, nothing loaded, nothing playing.\<close>

definition mounted :: "voice \<Rightarrow> av_state" where
  "mounted fresh =
     \<lparr>inputType = ''image'', imageData = None, videoElement = Some \<lparr>videoWidth = 0, videoHeight = 0\<rparr>,
      canvasWidth = 300, canvasHeight = 150, ctl = initialControls,
      synths = replicate (c_voiceCount initialControls) fresh,
      cursorPosition = 0, isPlaying = False, mediaLoaded = False, showModal = False,
      scheduled = False, overlay = []\<rparr>"

text \<open>The input switched to the webcam whose stream has not delivered a frame (or was refused):
  \<open>handleInputChange\<close> sets the type, \<open>updateInput\<close> pauses and rewinds; the video element has
  no width yet.\<close>

definition webcamNotReady :: av_state where
  "webcamNotReady = (pauseAudio (mounted toneSynth))\<lparr>inputType := ''webcam'', cursorPosition := 0\<rparr>"

section \<open>The cursor under the reset policy\<close>

text \<open>The spec's closed form, \<open>(s * N) mod L\<close>, on real numbers.\<close>

definition wrapModulo :: "real \<Rightarrow> nat \<Rightarrow> real \<Rightarrow> real" where
  "wrapModulo s N L = s * real N - L * of_int \<lfloor>s * real N / L\<rfloor>"

text \<open>The number of ticks from one reset to the next: the least \<open>k\<close> with \<open>s * k \<ge> L\<close>.\<close>

definition wrapPeriod :: "real \<Rightarrow> real \<Rightarrow> nat" where
  "wrapPeriod s L = nat \<lceil>L / s\<rceil>"

section \<open>The sample-point layout\<close>

text \<open>The spec's layout for more than one voice, \<open>floor(i * (L - 1) / (v - 1))\<close> for
  \<open>i = 0, ..., v - 1\<close>.\<close>

definition evenlySpaced :: "nat \<Rightarrow> nat \<Rightarrow> int list" where
  "evenlySpaced L v = map (\<lambda>i. \<lfloor>real i * (real L - 1) / (real v - 1)\<rfloor>) [0..<v]"

text \<open>A coordinate lies on an axis of \<open>L\<close> pixels.\<close>

definition withinAxis :: "nat \<Rightarrow> int \<Rightarrow> bool" where
  "withinAxis L y = (0 \<le> y \<and> y \<le> int L - 1)"

section \<open>The cursor under the turn-round policy\<close>

text \<open>The cursor is on the scan axis of length \<open>L\<close>.\<close>

definition withinScan :: "real \<Rightarrow> real \<Rightarrow> bool" where
  "withinScan L pos = (0 \<le> pos \<and> pos < L)"

text \<open>The spec's bounce, in its words: a position past a bound is reflected, the overshoot
  mirrored at the bound it passed.\<close>

definition reflectOvershoot :: "real \<Rightarrow> real \<Rightarrow> real" where
  "reflectOvershoot L pos =
     (if pos \<ge> L then L - (pos - L) else if pos < 0 then 0 - pos else pos)"

section \<open>Pixel lookups\<close>

text \<open>A channel value, or a brightness, is a number within \<open>[0, 1]\<close> (and not \<open>NaN\<close>).\<close>

definition normalized :: "real option \<Rightarrow> bool" where
  "normalized v = (case v of None \<Rightarrow> False | Some r \<Rightarrow> 0 \<le> r \<and> r \<le> 1)"

text \<open>The spec's lookup, in its words: the coordinates are clamped to the frame first.\<close>

definition clampedLookup :: "8 word list \<Rightarrow> nat \<Rightarrow> nat \<Rightarrow> int \<Rightarrow> int
    \<Rightarrow> real option \<times> real option \<times> real option \<times> real option" where
  "clampedLookup d w h x y = pixelLookup d w (clampCoord w x) (clampCoord h y)"

text \<open>A frame of two by two opaque pixels, row by row.\<close>

definition twoByTwo :: "8 word list" where
  "twoByTwo = [10, 20, 30, 255,  40, 50, 60, 255,  70, 80, 90, 255,  100, 110, 120, 255]"

section \<open>Reading the result of a tick\<close>

definition onsets :: "outcome \<times> app_state \<times> onset list \<Rightarrow> onset list" where
  "onsets r = snd (snd r)"

definition after :: "outcome \<times> app_state \<times> onset list \<Rightarrow> app_state" where
  "after r = fst (snd r)"

text \<open>The frequency \<open>scan\<close> plays for the sample point \<open>y\<close> (lines 194 and 198 to 201).\<close>

definition pointFrequency :: "real \<Rightarrow> app_state \<Rightarrow> canvas \<Rightarrow> int option \<Rightarrow> real" where
  "pointFrequency baseFreq st c y =
     noteFrequency baseFreq (scales (scale st))
       (getBrightnessAtPoint (app_imageData st) (width c) \<lfloor>app_cursorPosition st\<rfloor> y)"

text \<open>app.sveltep with the two-by-two image loaded, two voices, playing since time 0.\<close>

definition playingDemo :: app_state where
  "playingDemo =
     \<lparr>app_canvas = Some \<lparr>width = 2, height = 2\<rparr>, app_imageData = Some twoByTwo,
      app_cursorPosition = 0, app_isPlaying = True, direction = 1, lastPlayTime = 0,
      octave = 3, baseNote = ''G'', cursorSpeed = 1, waveform = ''sine'', scale = major,
      numberOfNotes = 2, app_synths = [toneSynth, toneSynth], samplePoints = [Some 0, Some 1],
      app_scheduled = True\<rparr>"

text \<open>AudioVisualizer.svelte after \<open>handleFileInput\<close> has loaded the two-by-two image.\<close>

definition imageLoaded :: av_state where
  "imageLoaded =
     (startAudio (mounted toneSynth))\<lparr>imageData := Some twoByTwo, canvasWidth := 2,
        canvasHeight := 2, mediaLoaded := True, isPlaying := True\<rparr>"

section \<open>Predicates of the statements\<close>

text \<open>The running minimum and maximum of the contrast window are numbers, in order, within
  the range of a byte.\<close>

definition contrastBounds :: "real option \<times> real option \<Rightarrow> bool" where
  "contrastBounds acc =
     (case acc of (Some mn, Some mx) \<Rightarrow> 0 \<le> mn \<and> mn \<le> mx \<and> mx \<le> 255 | _ \<Rightarrow> False)"

text \<open>The image data, when there is one, has the size of the canvas, which is not empty.\<close>

definition frameFits :: "8 word list option \<Rightarrow> canvas \<Rightarrow> bool" where
  "frameFits img c =
     (case img of
        None \<Rightarrow> True
      | Some d \<Rightarrow> length d = 4 * width c * height c \<and> 1 \<le> width c \<and> 1 \<le> height c)"

text \<open>A sample point is a number (not \<open>NaN\<close>); it is a row of a frame of \<open>h\<close> rows.\<close>

definition isNumber :: "int option \<Rightarrow> bool" where
  "isNumber y = (y \<noteq> None)"

definition inFrame :: "nat \<Rightarrow> int option \<Rightarrow> bool" where
  "inFrame h y = (case y of None \<Rightarrow> False | Some y' \<Rightarrow> withinAxis h y')"

text \<open>app.sveltep playing the two-by-two image with \<open>numberOfNotes\<close> set to 1 and the synths
  rebuilt by \<open>updateSynths\<close> (the number input bound to the variable asks for 2 to 12,
  which a typed value need not respect).\<close>

definition oneNote :: app_state where
  "oneNote = updateSynths toneSynth (playingDemo\<lparr>numberOfNotes := 1\<rparr>)"


section \<open>Properties of the rounding\<close>

lemma ulp_pos: "0 < ulp x"
  by (simp add: ulp_def)

lemma roundEven_of_int [simp]: "roundEven (real_of_int n) = n"
  by (simp add: roundEven_def)

lemma roundEven_near: "\<bar>real_of_int (roundEven q) - q\<bar> \<le> 1 / 2"
proof -
  have "real_of_int \<lfloor>q\<rfloor> \<le> q" "q < real_of_int \<lfloor>q\<rfloor> + 1" by linarith+
  then show ?thesis by (auto simp: roundEven_def Let_def)
qed

lemma roundEven_nonneg: "0 \<le> q \<Longrightarrow> 0 \<le> roundEven q"
  by (auto simp: roundEven_def Let_def)

lemma roundDouble_nonneg: "0 \<le> x \<Longrightarrow> 0 \<le> roundDouble x"
  using ulp_pos[of x] roundEven_nonneg[of "x / ulp x"]
  by (simp add: roundDouble_def)

lemma floor_log2_le:
  assumes "x \<noteq> 0"
  shows "2 powr real_of_int \<lfloor>log 2 \<bar>x\<bar>\<rfloor> \<le> \<bar>x\<bar>"
proof -
  have "2 powr real_of_int \<lfloor>log 2 \<bar>x\<bar>\<rfloor> \<le> 2 powr (log 2 \<bar>x\<bar>)"
    by (intro powr_mono) auto
  also have "\<dots> = \<bar>x\<bar>" using assms by simp
  finally show ?thesis .
qed

lemma floor_log2_gt:
  assumes "x \<noteq> 0"
  shows "\<bar>x\<bar> < 2 powr (real_of_int \<lfloor>log 2 \<bar>x\<bar>\<rfloor> + 1)"
proof -
  have "log 2 \<bar>x\<bar> < real_of_int \<lfloor>log 2 \<bar>x\<bar>\<rfloor> + 1" by linarith
  then have "2 powr (log 2 \<bar>x\<bar>) < 2 powr (real_of_int \<lfloor>log 2 \<bar>x\<bar>\<rfloor> + 1)"
    by (intro powr_less_mono) auto
  then show ?thesis using assms by simp
qed

lemma binade_eq:
  assumes "2 powr real_of_int e \<le> \<bar>x\<bar>" "\<bar>x\<bar> < 2 powr (real_of_int e + 1)" "- 1022 \<le> e"
  shows "binade x = e"
proof -
  have "(0::real) < 2 powr real_of_int e" by simp
  then have x: "0 < \<bar>x\<bar>" using assms(1) by linarith
  have "real_of_int e \<le> log 2 \<bar>x\<bar>" using assms(1) x by (simp add: le_log_iff)
  moreover have "log 2 \<bar>x\<bar> < real_of_int e + 1" using assms(2) x by (simp add: log_less_iff)
  ultimately have "\<lfloor>log 2 \<bar>x\<bar>\<rfloor> = e" by linarith
  then show ?thesis using assms(3) by (simp add: binade_def)
qed

lemma roundDouble_error:
  assumes "2 powr (- 1022) \<le> \<bar>x\<bar>"
  shows "\<bar>roundDouble x - x\<bar> \<le> 2 powr (- 53) * \<bar>x\<bar>"
proof -
  have "(0::real) < 2 powr (- 1022)" by simp
  then have x0: "x \<noteq> 0" using assms by auto
  let ?E = "\<lfloor>log 2 \<bar>x\<bar>\<rfloor>"
  have "real_of_int (- 1022) \<le> log 2 \<bar>x\<bar>" using assms x0 by (simp add: le_log_iff)
  then have "- 1022 \<le> ?E" by linarith
  then have b: "binade x = ?E" by (simp add: binade_def)
  have u: "ulp x = 2 powr (real_of_int ?E - 52)" by (simp add: ulp_def b)
  have "roundDouble x - x = ulp x * (real_of_int (roundEven (x / ulp x)) - x / ulp x)"
    using x0 ulp_pos[of x] by (simp add: roundDouble_def algebra_simps)
  then have "\<bar>roundDouble x - x\<bar> = ulp x * \<bar>real_of_int (roundEven (x / ulp x)) - x / ulp x\<bar>"
    using ulp_pos[of x] by (simp add: abs_mult)
  also have "\<dots> \<le> ulp x * (1 / 2)"
    using roundEven_near[of "x / ulp x"] ulp_pos[of x] by (intro mult_left_mono) auto
  also have "\<dots> = 2 powr (- 53) * 2 powr real_of_int ?E"
    by (simp add: u powr_diff powr_minus)
  also have "\<dots> \<le> 2 powr (- 53) * \<bar>x\<bar>"
    using floor_log2_le[OF x0] by (intro mult_left_mono) auto
  finally show ?thesis .
qed

lemma roundDouble_dyadic:
  assumes "\<bar>m\<bar> < 2 ^ 53" "k \<le> 1074"
  shows "roundDouble (real_of_int m / 2 ^ k) = real_of_int m / 2 ^ k"
proof (cases "m = 0")
  case True
  then show ?thesis by (simp add: roundDouble_def)
next
  case False
  let ?x = "real_of_int m / 2 ^ k"
  have x0: "?x \<noteq> 0" using False by simp
  let ?E = "\<lfloor>log 2 \<bar>?x\<bar>\<rfloor>"
  let ?B = "binade ?x"
  have "\<bar>real_of_int m\<bar> < 2 ^ 53" using assms(1) by (metis of_int_abs of_int_less_numeral_power_cancel_iff)
  then have "\<bar>?x\<bar> < 2 ^ 53 / 2 ^ k" by (simp add: divide_strict_right_mono abs_divide)
  also have "\<dots> = 2 powr (53 - real k)" by (simp add: powr_diff powr_realpow)
  finally have xlt: "\<bar>?x\<bar> < 2 powr (53 - real k)" .
  have "2 powr real_of_int ?E \<le> \<bar>?x\<bar>" using floor_log2_le[OF x0] .
  then have "2 powr real_of_int ?E < 2 powr (53 - real k)" using xlt by linarith
  then have "real_of_int ?E < 53 - real k" by simp
  then have E: "?E \<le> 52 - int k" by linarith
  have B: "?B \<le> 52 - int k" using E assms(2) by (simp add: binade_def)
  define j where "j = nat (52 - int k - ?B)"
  have j: "int j = 52 - int k - ?B" using B by (simp add: j_def)
  have "1 / ulp ?x = 2 powr (52 - real_of_int ?B)" by (simp add: ulp_def powr_diff)
  also have "52 - real_of_int ?B = real k + real j" using j by linarith
  also have "2 powr (real k + real j) = 2 ^ k * 2 ^ j" by (simp add: powr_add powr_realpow)
  finally have iu: "1 / ulp ?x = 2 ^ k * 2 ^ j" .
  have "?x / ulp ?x = ?x * (1 / ulp ?x)" by simp
  also have "\<dots> = real_of_int m * 2 ^ j" by (simp add: iu)
  also have "\<dots> = real_of_int (m * 2 ^ j)" by simp
  finally have q: "?x / ulp ?x = real_of_int (m * 2 ^ j)" .
  have "roundDouble ?x = ulp ?x * real_of_int (roundEven (?x / ulp ?x))"
    using x0 by (simp only: roundDouble_def if_False)
  also have "\<dots> = ulp ?x * (?x / ulp ?x)" by (simp only: q roundEven_of_int)
  also have "\<dots> = ?x" using ulp_pos[of ?x] by simp
  finally show ?thesis .
qed

lemma roundDouble_of_int:
  "\<bar>m\<bar> < 2 ^ 53 \<Longrightarrow> roundDouble (real_of_int m) = real_of_int m"
  using roundDouble_dyadic[of m 0] by simp

lemma roundDouble_of_nat:
  "n < 2 ^ 53 \<Longrightarrow> roundDouble (real n) = real n"
  using roundDouble_of_int[of "int n"] by simp

lemma roundDouble_half:
  "\<bar>m\<bar> < 2 ^ 53 \<Longrightarrow> roundDouble (real_of_int m / 2) = real_of_int m / 2"
  using roundDouble_dyadic[of m 1] by simp

lemma roundDouble_eval:
  assumes "2 powr real_of_int e \<le> \<bar>x\<bar>" "\<bar>x\<bar> < 2 powr (real_of_int e + 1)" "- 1022 \<le> e"
  shows "roundDouble x = 2 powr (real_of_int e - 52) * real_of_int (roundEven (x / 2 powr (real_of_int e - 52)))"
proof -
  have "(0::real) < 2 powr real_of_int e" by simp
  then have "x \<noteq> 0" using assms(1) by auto
  then show ?thesis using binade_eq[OF assms] by (simp add: roundDouble_def ulp_def)
qed

lemma roundDouble_scaled:
  assumes "x = q * 2 powr (real_of_int e - 52)" "2 ^ 52 \<le> \<bar>q\<bar>" "\<bar>q\<bar> < 2 ^ 53" "- 1022 \<le> e"
  shows "roundDouble x = real_of_int (roundEven q) * 2 powr (real_of_int e - 52)"
proof -
  let ?u = "2 powr (real_of_int e - 52) :: real"
  have u: "0 < ?u" by simp
  have ax: "\<bar>x\<bar> = \<bar>q\<bar> * ?u" using assms(1) by (simp add: abs_mult)
  have "2 powr real_of_int e = 2 ^ 52 * ?u" by (simp add: powr_diff)
  also have "\<dots> \<le> \<bar>q\<bar> * ?u" using assms(2) u by (intro mult_right_mono) auto
  finally have lo: "2 powr real_of_int e \<le> \<bar>x\<bar>" using ax by simp
  have "\<bar>q\<bar> * ?u < 2 ^ 53 * ?u" using assms(3) u by (intro mult_strict_right_mono) auto
  also have "\<dots> = 2 powr (real_of_int e + 1)" by (simp add: powr_diff powr_add)
  finally have hi: "\<bar>x\<bar> < 2 powr (real_of_int e + 1)" using ax by simp
  have "x / ?u = q" using assms(1) by simp
  then show ?thesis using roundDouble_eval[OF lo hi assms(4)] by (simp add: mult.commute)
qed

lemma roundDouble_numeral:
  "(numeral w :: int) < 2 ^ 53 \<Longrightarrow> roundDouble (numeral w) = numeral w"
  using roundDouble_of_int[of "numeral w"] by simp

lemma roundDouble_0 [simp]: "roundDouble 0 = 0"
  by (simp add: roundDouble_def)

lemma roundDouble_1 [simp]: "roundDouble 1 = 1"
  using roundDouble_of_int[of 1] by simp

lemma roundDouble_neg_numeral:
  "(numeral w :: int) < 2 ^ 53 \<Longrightarrow> roundDouble (- numeral w) = - numeral w"
  using roundDouble_of_int[of "- numeral w"] by simp

lemma roundDouble_neg_1 [simp]: "roundDouble (- 1) = - 1"
  using roundDouble_of_int[of "- 1"] by simp

lemma tiny_le: "(2::real) powr (- 1022) \<le> 1 / 2 ^ 26"
proof -
  have "(2::real) powr (- 1022) \<le> 2 powr (- 26)" by (intro powr_mono) auto
  also have "\<dots> = 1 / 2 ^ 26" by (simp add: powr_minus_divide)
  finally show ?thesis .
qed

lemma roundDouble_rel:
  assumes "1 / 2 ^ 26 \<le> x"
  shows "x * (1 - 1 / 2 ^ 53) \<le> roundDouble x" and "roundDouble x \<le> x * (1 + 1 / 2 ^ 53)"
proof -
  have "(0::real) < 1 / 2 ^ 26" by simp
  then have x: "0 < x" using assms by linarith
  have "2 powr (- 1022) \<le> \<bar>x\<bar>" using tiny_le assms by linarith
  from roundDouble_error[OF this] have "\<bar>roundDouble x - x\<bar> \<le> 2 powr (- 53) * x"
    using x by simp
  moreover have "2 powr (- 53) * x = x / 2 ^ 53" by (simp add: powr_minus_divide)
  ultimately have e: "\<bar>roundDouble x - x\<bar> \<le> x / 2 ^ 53" by (simp only:)
  have lo: "x - x / 2 ^ 53 \<le> roundDouble x" and hi: "roundDouble x \<le> x + x / 2 ^ 53"
    using e by linarith+
  have "x * (1 - 1 / 2 ^ 53) = x - x / 2 ^ 53" by (simp only: right_diff_distrib mult_1_right times_divide_eq_right)
  then show "x * (1 - 1 / 2 ^ 53) \<le> roundDouble x" using lo by (simp only:)
  have "x * (1 + 1 / 2 ^ 53) = x + x / 2 ^ 53" by (simp only: distrib_left mult_1_right times_divide_eq_right)
  then show "roundDouble x \<le> x * (1 + 1 / 2 ^ 53)" using hi by (simp only:)
qed

lemma roundDouble_abs_error:
  assumes "\<bar>x\<bar> \<le> 1"
  shows "\<bar>roundDouble x - x\<bar> \<le> 1 / 2 ^ 53"
proof (cases "x = 0")
  case True
  then show ?thesis by simp
next
  case False
  have "log 2 \<bar>x\<bar> \<le> 0" using assms False by (simp add: log_le_zero_cancel_iff)
  then have "\<lfloor>log 2 \<bar>x\<bar>\<rfloor> \<le> 0" by linarith
  then have "binade x \<le> 0" by (simp add: binade_def)
  then have "ulp x \<le> 2 powr (0 - 52)" unfolding ulp_def by (intro powr_mono) auto
  then have u: "ulp x \<le> 1 / 2 ^ 52" by (simp add: powr_minus_divide)
  have "roundDouble x - x = ulp x * (real_of_int (roundEven (x / ulp x)) - x / ulp x)"
    using False ulp_pos[of x] by (simp add: roundDouble_def algebra_simps)
  then have "\<bar>roundDouble x - x\<bar> = ulp x * \<bar>real_of_int (roundEven (x / ulp x)) - x / ulp x\<bar>"
    using ulp_pos[of x] by (simp add: abs_mult)
  also have "\<dots> \<le> ulp x * (1 / 2)"
    using roundEven_near[of "x / ulp x"] ulp_pos[of x] by (intro mult_left_mono) auto
  also have "\<dots> \<le> 1 / 2 ^ 52 * (1 / 2)" using u by (intro mult_right_mono) auto
  finally show ?thesis by simp
qed

lemma roundDouble_abs:
  assumes "\<bar>x\<bar> \<le> 1"
  shows "x - 1 / 2 ^ 53 \<le> roundDouble x" "roundDouble x \<le> x + 1 / 2 ^ 53"
  using roundDouble_abs_error[OF assms] by linarith+

lemma half_exact:
  assumes "i < 2 ^ 52"
  shows "roundDouble (real i + 0.5) = real i + 1 / 2"
proof -
  have "\<bar>2 * int i + 1\<bar> < 2 ^ 53" using assms by simp
  from roundDouble_half[OF this] show ?thesis by (simp add: add_divide_distrib)
qed

lemma quarter_exact:
  "\<bar>m\<bar> < 2 ^ 53 \<Longrightarrow> roundDouble (real_of_int m / 4) = real_of_int m / 4"
  using roundDouble_dyadic[of m 2] by simp

section \<open>Properties of AudioVisualizer.svelte\<close>

subsection \<open>A frame that is not ready\<close>

lemma updateAudio_early_return:
  "readySource (st\<lparr>scheduled := False\<rparr>) = None \<Longrightarrow> updateAudio grabbed st = st\<lparr>scheduled := False\<rparr>"
  by (simp add: updateAudio_def)

text \<open>
  C1. The claim: a tick that finds no frame is skipped and the loop is still rescheduled, so
  the loop never halts silently. In the code such a tick returns before
  \<open>requestAnimationFrame\<close>. With the webcam selected and no frame delivered yet, pressing
  play starts the voices and requests the first tick; that tick leaves the instrument
  playing, every voice sounding, and no further tick requested.
\<close>

theorem updateAudio_not_ready_halts:
  "isPlaying (togglePlay webcamNotReady) \<and> scheduled (togglePlay webcamNotReady)
   \<and> isPlaying (updateAudio grabbed (togglePlay webcamNotReady))
   \<and> map sounding (synths (updateAudio grabbed (togglePlay webcamNotReady))) = [True, True, True, True]
   \<and> \<not> scheduled (updateAudio grabbed (togglePlay webcamNotReady))"
  by (simp add: updateAudio_def readySource_def togglePlay_def startAudio_def pauseAudio_def
      webcamNotReady_def mounted_def initialControls_def videoTypes_def triggerAttack_def
      triggerRelease_def toneSynth_def eval_nat_numeral)

subsection \<open>The cursor and its reset\<close>

lemma advanceCursor_whole:
  assumes "P + S < 2 ^ 53"
  shows "advanceCursor (real S) (real L) (real P) = (if P + S \<ge> L then 0 else real (P + S))"
proof -
  have "roundDouble (real P + real S) = real (P + S)"
    using roundDouble_of_nat[OF assms] by simp
  then show ?thesis by (simp add: advanceCursor_def Let_def)
qed

lemma below_period:
  assumes "0 < s" "Suc j < wrapPeriod s L"
  shows "s * real (Suc j) < L"
proof -
  have "int (Suc j) < \<lceil>L / s\<rceil>" using assms(2) by (simp add: wrapPeriod_def)
  then have "real (Suc j) < L / s" by (metis less_ceiling_iff of_int_of_nat_eq)
  then show ?thesis using assms(1) by (simp add: pos_less_divide_eq mult.commute)
qed

lemma at_period:
  assumes "0 < s" "0 < L"
  shows "s * real (wrapPeriod s L) \<ge> L" "0 < wrapPeriod s L"
proof -
  have "0 < L / s" using assms by simp
  then have c: "0 < \<lceil>L / s\<rceil>" by simp
  then show "0 < wrapPeriod s L" by (simp add: wrapPeriod_def)
  have "L / s \<le> of_int \<lceil>L / s\<rceil>" by simp
  also have "\<dots> = real (wrapPeriod s L)" using c by (simp add: wrapPeriod_def)
  finally show "s * real (wrapPeriod s L) \<ge> L"
    using assms(1) by (simp add: pos_divide_le_eq mult.commute)
qed

lemma wrap_iter:
  assumes "0 < s" "0 < L" "L + s < 2 ^ 53"
  shows "(advanceCursor (real s) (real L) ^^ N) 0 = real (s * (N mod wrapPeriod (real s) (real L)))"
proof (induction N)
  case 0
  show ?case by simp
next
  case (Suc N)
  let ?k = "wrapPeriod (real s) (real L)"
  let ?j = "N mod ?k"
  have s': "0 < real s" and L': "0 < real L" using assms by simp_all
  have kpos: "0 < ?k" using at_period(2)[OF s' L'] .
  have jk: "?j < ?k" using kpos by simp
  have below: "s * ?j < L"
  proof (cases ?j)
    case 0
    then show ?thesis using assms by simp
  next
    case (Suc i)
    then have "real s * real (Suc i) < real L" using below_period[OF s', of i "real L"] jk by simp
    then have "real (s * Suc i) < real L" by (simp add: algebra_simps)
    then show ?thesis using Suc by (simp only: of_nat_less_iff)
  qed
  then have bound: "s * ?j + s < 2 ^ 53" using assms(3) by linarith
  have step: "(advanceCursor (real s) (real L) ^^ Suc N) 0
                = (if s * ?j + s \<ge> L then 0 else real (s * ?j + s))"
    using Suc advanceCursor_whole[OF bound, of L] by simp
  show ?case
  proof (cases "Suc ?j = ?k")
    case True
    then have m: "Suc N mod ?k = 0" by (metis mod_Suc)
    have "real L \<le> real s * real ?k" using at_period(1)[OF s' L'] .
    then have "real L \<le> real (s * Suc ?j)" using True by (simp add: algebra_simps)
    then have "L \<le> s * ?j + s" by (simp only: of_nat_le_iff) simp
    then show ?thesis using step m by simp
  next
    case False
    then have lt: "Suc ?j < ?k" using jk by linarith
    have m: "Suc N mod ?k = Suc ?j" using False by (metis mod_Suc)
    have "real s * real (Suc ?j) < real L" using below_period[OF s' lt] .
    then have "real (s * Suc ?j) < real L" by (simp add: algebra_simps)
    then have "s * ?j + s < L" by (simp only: of_nat_less_iff) simp
    then show ?thesis using step m by simp
  qed
qed

lemma wrap_divides:
  assumes "0 < s" "0 < k"
  shows "real (s * (N mod k)) = wrapModulo (real s) N (real (s * k))"
proof -
  have "\<lfloor>real s * real N / real (s * k)\<rfloor> = \<lfloor>real N / real k\<rfloor>" using assms by simp
  also have "\<dots> = int (N div k)" by (simp add: floor_divide_of_nat_eq)
  finally have f: "\<lfloor>real s * real N / real (s * k)\<rfloor> = int (N div k)" .
  have "real N = real (k * (N div k) + N mod k)" by simp
  then have "real N = real k * real (N div k) + real (N mod k)"
    by (metis of_nat_add of_nat_mult)
  then have "real s * real (N mod k) = real s * real N - real s * real k * real (N div k)"
    by (simp add: algebra_simps)
  then show ?thesis using f by (simp add: wrapModulo_def)
qed

lemma advanceCursor_range:
  assumes "0 \<le> s" "0 < L" "withinScan L p"
  shows "withinScan L (advanceCursor s L p)"
proof -
  have "0 \<le> roundDouble (p + s)" using assms by (intro roundDouble_nonneg) (simp add: withinScan_def)
  then show ?thesis using assms(2) by (simp add: advanceCursor_def Let_def withinScan_def)
qed

lemma wrap_iter_range:
  assumes "0 \<le> s" "0 < L"
  shows "withinScan L ((advanceCursor s L ^^ N) 0)"
proof (induction N)
  case 0
  show ?case using assms by (simp add: withinScan_def)
next
  case (Suc N)
  then show ?case using advanceCursor_range[OF assms] by simp
qed

text \<open>Ten steps of the double next to 0.1 on a width of 1, sum by sum: the tenth sum is the
  double below 1, so the cursor is not reset on the tenth tick.\<close>

lemma speed_tenth: "roundDouble (0.1) = 3602879701896397 / 2 ^ 55"
proof -
  have "roundDouble (0.1) = real_of_int (roundEven ((0.1) * 2 ^ 56)) * 2 powr (real_of_int (- 4) - 52)"
    by (rule roundDouble_scaled) (simp_all add: powr_minus_divide)
  also have "roundEven ((0.1) * 2 ^ 56) = 7205759403792794"
    by (simp add: roundEven_def Let_def)
  finally show ?thesis by (simp add: powr_minus_divide)
qed

lemma wrap_sum_1: "roundDouble (3602879701896397 / 2 ^ 55) = 3602879701896397 / 2 ^ 55"
  using roundDouble_dyadic[of "3602879701896397" 55] by simp

lemma wrap_tick_1: "advanceCursor (3602879701896397 / 2 ^ 55) 1 (0) = 3602879701896397 / 2 ^ 55"
  by (simp only: advanceCursor_def Let_def add_0 wrap_sum_1) simp

lemma wrap_sum_2: "roundDouble (3602879701896397 / 2 ^ 55 + 3602879701896397 / 2 ^ 55) = 3602879701896397 / 2 ^ 54"
proof -
  have "roundDouble (3602879701896397 / 2 ^ 55 + 3602879701896397 / 2 ^ 55) = real_of_int (roundEven ((3602879701896397 / 2 ^ 55 + 3602879701896397 / 2 ^ 55) * 2 ^ 55)) * 2 powr (real_of_int (- 3) - 52)"
    by (rule roundDouble_scaled) (simp_all add: powr_minus_divide)
  also have "roundEven ((3602879701896397 / 2 ^ 55 + 3602879701896397 / 2 ^ 55) * 2 ^ 55) = 7205759403792794"
    by (simp add: roundEven_def Let_def)
  finally show ?thesis by (simp add: powr_minus_divide)
qed

lemma wrap_tick_2: "advanceCursor (3602879701896397 / 2 ^ 55) 1 (3602879701896397 / 2 ^ 55) = 3602879701896397 / 2 ^ 54"
  by (simp only: advanceCursor_def Let_def add_0 wrap_sum_2) simp

lemma wrap_sum_3: "roundDouble (3602879701896397 / 2 ^ 54 + 3602879701896397 / 2 ^ 55) = 1351079888211149 / 2 ^ 52"
proof -
  have "roundDouble (3602879701896397 / 2 ^ 54 + 3602879701896397 / 2 ^ 55) = real_of_int (roundEven ((3602879701896397 / 2 ^ 54 + 3602879701896397 / 2 ^ 55) * 2 ^ 54)) * 2 powr (real_of_int (- 2) - 52)"
    by (rule roundDouble_scaled) (simp_all add: powr_minus_divide)
  also have "roundEven ((3602879701896397 / 2 ^ 54 + 3602879701896397 / 2 ^ 55) * 2 ^ 54) = 5404319552844596"
    by (simp add: roundEven_def Let_def)
  finally show ?thesis by (simp add: powr_minus_divide)
qed

lemma wrap_tick_3: "advanceCursor (3602879701896397 / 2 ^ 55) 1 (3602879701896397 / 2 ^ 54) = 1351079888211149 / 2 ^ 52"
  by (simp only: advanceCursor_def Let_def add_0 wrap_sum_3) simp

lemma wrap_sum_4: "roundDouble (1351079888211149 / 2 ^ 52 + 3602879701896397 / 2 ^ 55) = 3602879701896397 / 2 ^ 53"
proof -
  have "roundDouble (1351079888211149 / 2 ^ 52 + 3602879701896397 / 2 ^ 55) = real_of_int (roundEven ((1351079888211149 / 2 ^ 52 + 3602879701896397 / 2 ^ 55) * 2 ^ 54)) * 2 powr (real_of_int (- 2) - 52)"
    by (rule roundDouble_scaled) (simp_all add: powr_minus_divide)
  also have "roundEven ((1351079888211149 / 2 ^ 52 + 3602879701896397 / 2 ^ 55) * 2 ^ 54) = 7205759403792794"
    by (simp add: roundEven_def Let_def)
  finally show ?thesis by (simp add: powr_minus_divide)
qed

lemma wrap_tick_4: "advanceCursor (3602879701896397 / 2 ^ 55) 1 (1351079888211149 / 2 ^ 52) = 3602879701896397 / 2 ^ 53"
  by (simp only: advanceCursor_def Let_def add_0 wrap_sum_4) simp

lemma wrap_sum_5: "roundDouble (3602879701896397 / 2 ^ 53 + 3602879701896397 / 2 ^ 55) = 1 / 2 ^ 1"
proof -
  have "roundDouble (3602879701896397 / 2 ^ 53 + 3602879701896397 / 2 ^ 55) = real_of_int (roundEven ((3602879701896397 / 2 ^ 53 + 3602879701896397 / 2 ^ 55) * 2 ^ 53)) * 2 powr (real_of_int (- 1) - 52)"
    by (rule roundDouble_scaled) (simp_all add: powr_minus_divide)
  also have "roundEven ((3602879701896397 / 2 ^ 53 + 3602879701896397 / 2 ^ 55) * 2 ^ 53) = 4503599627370496"
    by (simp add: roundEven_def Let_def)
  finally show ?thesis by (simp add: powr_minus_divide)
qed

lemma wrap_tick_5: "advanceCursor (3602879701896397 / 2 ^ 55) 1 (3602879701896397 / 2 ^ 53) = 1 / 2 ^ 1"
  by (simp only: advanceCursor_def Let_def add_0 wrap_sum_5) simp

lemma wrap_sum_6: "roundDouble (1 / 2 ^ 1 + 3602879701896397 / 2 ^ 55) = 5404319552844595 / 2 ^ 53"
proof -
  have "roundDouble (1 / 2 ^ 1 + 3602879701896397 / 2 ^ 55) = real_of_int (roundEven ((1 / 2 ^ 1 + 3602879701896397 / 2 ^ 55) * 2 ^ 53)) * 2 powr (real_of_int (- 1) - 52)"
    by (rule roundDouble_scaled) (simp_all add: powr_minus_divide)
  also have "roundEven ((1 / 2 ^ 1 + 3602879701896397 / 2 ^ 55) * 2 ^ 53) = 5404319552844595"
    by (simp add: roundEven_def Let_def)
  finally show ?thesis by (simp add: powr_minus_divide)
qed

lemma wrap_tick_6: "advanceCursor (3602879701896397 / 2 ^ 55) 1 (1 / 2 ^ 1) = 5404319552844595 / 2 ^ 53"
  by (simp only: advanceCursor_def Let_def add_0 wrap_sum_6) simp

lemma wrap_sum_7: "roundDouble (5404319552844595 / 2 ^ 53 + 3602879701896397 / 2 ^ 55) = 3152519739159347 / 2 ^ 52"
proof -
  have "roundDouble (5404319552844595 / 2 ^ 53 + 3602879701896397 / 2 ^ 55) = real_of_int (roundEven ((5404319552844595 / 2 ^ 53 + 3602879701896397 / 2 ^ 55) * 2 ^ 53)) * 2 powr (real_of_int (- 1) - 52)"
    by (rule roundDouble_scaled) (simp_all add: powr_minus_divide)
  also have "roundEven ((5404319552844595 / 2 ^ 53 + 3602879701896397 / 2 ^ 55) * 2 ^ 53) = 6305039478318694"
    by (simp add: roundEven_def Let_def)
  finally show ?thesis by (simp add: powr_minus_divide)
qed

lemma wrap_tick_7: "advanceCursor (3602879701896397 / 2 ^ 55) 1 (5404319552844595 / 2 ^ 53) = 3152519739159347 / 2 ^ 52"
  by (simp only: advanceCursor_def Let_def add_0 wrap_sum_7) simp

lemma wrap_sum_8: "roundDouble (3152519739159347 / 2 ^ 52 + 3602879701896397 / 2 ^ 55) = 7205759403792793 / 2 ^ 53"
proof -
  have "roundDouble (3152519739159347 / 2 ^ 52 + 3602879701896397 / 2 ^ 55) = real_of_int (roundEven ((3152519739159347 / 2 ^ 52 + 3602879701896397 / 2 ^ 55) * 2 ^ 53)) * 2 powr (real_of_int (- 1) - 52)"
    by (rule roundDouble_scaled) (simp_all add: powr_minus_divide)
  also have "roundEven ((3152519739159347 / 2 ^ 52 + 3602879701896397 / 2 ^ 55) * 2 ^ 53) = 7205759403792793"
    by (simp add: roundEven_def Let_def)
  finally show ?thesis by (simp add: powr_minus_divide)
qed

lemma wrap_tick_8: "advanceCursor (3602879701896397 / 2 ^ 55) 1 (3152519739159347 / 2 ^ 52) = 7205759403792793 / 2 ^ 53"
  by (simp only: advanceCursor_def Let_def add_0 wrap_sum_8) simp

lemma wrap_sum_9: "roundDouble (7205759403792793 / 2 ^ 53 + 3602879701896397 / 2 ^ 55) = 2026619832316723 / 2 ^ 51"
proof -
  have "roundDouble (7205759403792793 / 2 ^ 53 + 3602879701896397 / 2 ^ 55) = real_of_int (roundEven ((7205759403792793 / 2 ^ 53 + 3602879701896397 / 2 ^ 55) * 2 ^ 53)) * 2 powr (real_of_int (- 1) - 52)"
    by (rule roundDouble_scaled) (simp_all add: powr_minus_divide)
  also have "roundEven ((7205759403792793 / 2 ^ 53 + 3602879701896397 / 2 ^ 55) * 2 ^ 53) = 8106479329266892"
    by (simp add: roundEven_def Let_def)
  finally show ?thesis by (simp add: powr_minus_divide)
qed

lemma wrap_tick_9: "advanceCursor (3602879701896397 / 2 ^ 55) 1 (7205759403792793 / 2 ^ 53) = 2026619832316723 / 2 ^ 51"
  by (simp only: advanceCursor_def Let_def add_0 wrap_sum_9) simp

lemma wrap_sum_10: "roundDouble (2026619832316723 / 2 ^ 51 + 3602879701896397 / 2 ^ 55) = 9007199254740991 / 2 ^ 53"
proof -
  have "roundDouble (2026619832316723 / 2 ^ 51 + 3602879701896397 / 2 ^ 55) = real_of_int (roundEven ((2026619832316723 / 2 ^ 51 + 3602879701896397 / 2 ^ 55) * 2 ^ 53)) * 2 powr (real_of_int (- 1) - 52)"
    by (rule roundDouble_scaled) (simp_all add: powr_minus_divide)
  also have "roundEven ((2026619832316723 / 2 ^ 51 + 3602879701896397 / 2 ^ 55) * 2 ^ 53) = 9007199254740991"
    by (simp add: roundEven_def Let_def)
  finally show ?thesis by (simp add: powr_minus_divide)
qed

lemma wrap_tick_10: "advanceCursor (3602879701896397 / 2 ^ 55) 1 (2026619832316723 / 2 ^ 51) = 9007199254740991 / 2 ^ 53"
  by (simp only: advanceCursor_def Let_def add_0 wrap_sum_10) simp

lemma funpow_ten: "(f ^^ 10) x = f (f (f (f (f (f (f (f (f (f x)))))))))"
  by (simp add: eval_nat_numeral)

lemma wrap_trace_tenth: "(advanceCursor (roundDouble 0.1) 1 ^^ 10) 0 = 9007199254740991 / 2 ^ 53"
  by (simp only: funpow_ten speed_tenth wrap_tick_1 wrap_tick_2 wrap_tick_3 wrap_tick_4 wrap_tick_5 wrap_tick_6 wrap_tick_7 wrap_tick_8 wrap_tick_9 wrap_tick_10)

text \<open>
  C2, as stated: after \<open>N\<close> ticks at speed \<open>s\<close> on a width \<open>L\<close> the cursor is at
  \<open>(s * N) mod L\<close>. The code resets the cursor to 0 when a step reaches the width and drops
  the overshoot: at speed 3 on a width of 10 the fourth tick leaves it at 0, not at 2. With a
  fractional speed the sums are rounded: ten steps of 0.1 on a width of 1 end just below 1,
  where \<open>(s * N) mod L\<close> is 0.
\<close>

theorem wrap_modulo_counterexample:
  "(advanceCursor 3 10 ^^ 4) 0 = 0 \<and> wrapModulo 3 4 10 = 2
   \<and> (advanceCursor (roundDouble 0.1) 1 ^^ 10) 0 = 9007199254740991 / 2 ^ 53
   \<and> wrapModulo 0.1 10 1 = 0"
proof -
  have a: "(advanceCursor 3 10 ^^ 4) 0 = 0 \<and> wrapModulo 3 4 10 = 2"
    by (simp add: eval_nat_numeral advanceCursor_def wrapModulo_def roundDouble_numeral)
  have b: "wrapModulo 0.1 10 1 = 0" by (simp add: wrapModulo_def)
  show ?thesis using a b wrap_trace_tenth by blast
qed

text \<open>
  C2, amended: for a whole-number speed \<open>s > 0\<close> and width \<open>L > 0\<close> (with \<open>L + s\<close> below
  \<open>2^53\<close>, where doubles are exact), after \<open>N\<close> ticks from 0 the cursor is at
  \<open>s * (N mod k)\<close>, where \<open>k\<close> is the least number of steps that reaches the width,
  \<open>k = \<lceil>L / s\<rceil>\<close>; this is \<open>(s * N) mod L\<close> whenever the width is a whole number of steps,
  \<open>L = s * k\<close>. For every speed that is not negative and every width above 0 the cursor is
  within \<open>[0, width)\<close> after every tick. (This variant has no direction: the cursor only
  moves forward.)
\<close>

theorem wrap_position_after_ticks:
  assumes "0 < s" and "0 < L" and "L + s < 2 ^ 53"
  shows "(advanceCursor (real s) (real L) ^^ N) 0 = real s * real (N mod wrapPeriod (real s) (real L))
         \<and> (L = s * wrapPeriod (real s) (real L) \<longrightarrow>
               (advanceCursor (real s) (real L) ^^ N) 0 = wrapModulo (real s) N (real L))
         \<and> (0 \<le> speed \<and> 0 < W \<longrightarrow> withinScan W ((advanceCursor speed W ^^ N) 0))"
proof (intro conjI impI)
  show a: "(advanceCursor (real s) (real L) ^^ N) 0 = real s * real (N mod wrapPeriod (real s) (real L))"
    using wrap_iter[OF assms, of N] by simp
  show "(advanceCursor (real s) (real L) ^^ N) 0 = wrapModulo (real s) N (real L)"
    if eq: "L = s * wrapPeriod (real s) (real L)"
  proof -
    have "0 < wrapPeriod (real s) (real L)" using at_period(2)[of "real s" "real L"] assms by simp
    from wrap_divides[OF assms(1) this, of N] eq a show ?thesis by simp
  qed
  show "withinScan W ((advanceCursor speed W ^^ N) 0)" if "0 \<le> speed \<and> 0 < W"
    using that wrap_iter_range by blast
qed

theorem wrap_position_after_ticks_witness:
  "(0::nat) < 2 \<and> (0::nat) < 10 \<and> (10::nat) + 2 < 2 ^ 53 \<and> (10::nat) = 2 * wrapPeriod 2 10
   \<and> (advanceCursor 2 10 ^^ 7) 0 = 4 \<and> wrapModulo 2 7 10 = 4
   \<and> withinScan 10 ((advanceCursor 2 10 ^^ 7) 0)"
proof -
  have p: "wrapPeriod 2 10 = 5" by (simp add: wrapPeriod_def)
  have "(7::nat) mod 5 = 2" by simp
  with wrap_position_after_ticks[of 2 10 7 2 10] p show ?thesis by (simp add: withinScan_def)
qed

subsection \<open>Resizing the voice pool\<close>

declare popVoices.simps [simp del] pushVoices.simps [simp del]

lemma popVoices_take: "popVoices value vs = take value vs"
proof (induction "value" vs rule: popVoices.induct)
  case (1 v vs)
  show ?case
  proof (cases "length vs > v")
    case True
    then have "popVoices v vs = popVoices v (butlast vs)" by (subst popVoices.simps) simp
    also have "\<dots> = take v (butlast vs)" using 1 True by simp
    also have "\<dots> = take v vs" using True by (simp add: take_butlast)
    finally show ?thesis .
  next
    case False
    then show ?thesis by (subst popVoices.simps) simp
  qed
qed

lemma pushVoices_replicate:
  "pushVoices fresh c playing value vs
     = vs @ replicate (value - length vs) (grownVoice fresh c playing)"
proof (induction fresh c playing "value" vs rule: pushVoices.induct)
  case (1 fresh c playing v vs)
  let ?g = "grownVoice fresh c playing"
  show ?case
  proof (cases "length vs < v")
    case True
    then have "pushVoices fresh c playing v vs = pushVoices fresh c playing v (vs @ [?g])"
      by (subst pushVoices.simps) simp
    also have "\<dots> = (vs @ [?g]) @ replicate (v - length (vs @ [?g])) ?g"
      using 1 True by simp
    also have "\<dots> = vs @ replicate (Suc (v - Suc (length vs))) ?g"
      by simp
    also have "Suc (v - Suc (length vs)) = v - length vs" using True by simp
    finally show ?thesis .
  next
    case False
    then show ?thesis by (subst pushVoices.simps) simp
  qed
qed

lemma updateVoiceCount_synths:
  "synths (updateVoiceCount fresh value st)
     = take value (synths st)
       @ replicate (value - length (synths st)) (grownVoice fresh (ctl st) (isPlaying st))"
  by (simp add: updateVoiceCount_def popVoices_take pushVoices_replicate min_def)

lemma updateVoiceCount_ctl [simp]: "ctl (updateVoiceCount fresh value st) = ctl st"
  by (simp add: updateVoiceCount_def)

lemma grownVoice_shares: "sharesSettings c (grownVoice fresh c playing)"
  by (simp add: sharesSettings_def grownVoice_def triggerAttack_def Let_def)

lemma updateVoiceCount_kept:
  "take (length (synths st)) (synths (updateVoiceCount fresh value st)) = take value (synths st)"
  by (simp add: updateVoiceCount_synths min_def)

lemma updateVoiceCount_grown:
  "list_all (sharesSettings (ctl st))
     (drop (length (synths st)) (synths (updateVoiceCount fresh value st)))"
  by (simp add: updateVoiceCount_synths list_all_iff grownVoice_shares)

lemma updateVoiceCount_invariant:
  "list_all (sharesSettings (ctl st)) (synths st)
     \<Longrightarrow> list_all (sharesSettings (ctl st)) (synths (updateVoiceCount fresh value st))"
  by (auto simp: updateVoiceCount_synths list_all_iff grownVoice_shares dest: in_set_takeD)

lemma updateSynths_voices:
  "app_synths (updateSynths fresh st) = replicate (numberOfNotes st) fresh"
  by (simp add: updateSynths_def updateSamplePoints_def split: option.splits)

text \<open>
  C3, as stated: after a resize every live voice carries the pool's current timbre and
  volume. The resize leaves the voices it keeps as they are, and \<open>onMount\<close> made them with
  the library's settings: growing the pool from 4 to 6 before the first play gives four
  voices at 0 dB and two at the shared -10 dB.
\<close>

theorem resize_shared_settings_counterexample:
  "map volume (synths (updateVoiceCount toneSynth 6 (mounted toneSynth))) = [0, 0, 0, 0, -10, -10]
   \<and> c_volume (ctl (updateVoiceCount toneSynth 6 (mounted toneSynth))) = -10
   \<and> \<not> list_all (sharesSettings (ctl (updateVoiceCount toneSynth 6 (mounted toneSynth))))
          (synths (updateVoiceCount toneSynth 6 (mounted toneSynth)))"
  by (simp add: updateVoiceCount_synths mounted_def initialControls_def toneSynth_def
      grownVoice_def sharesSettings_def eval_nat_numeral)

text \<open>
  C3, amended: after \<open>updateVoiceCount v2\<close> the pool holds exactly \<open>v2\<close> voices; the voices
  it keeps are the oldest ones, unchanged; every voice it grows carries the shared volume and
  oscillator type of the controls, not the library's; so all voices carry the shared
  settings whenever the voices before the resize did.
\<close>

theorem resize_voice_pool:
  "length (synths (updateVoiceCount fresh v2 st)) = v2
   \<and> take (length (synths st)) (synths (updateVoiceCount fresh v2 st)) = take v2 (synths st)
   \<and> list_all (sharesSettings (ctl st))
        (drop (length (synths st)) (synths (updateVoiceCount fresh v2 st)))
   \<and> (list_all (sharesSettings (ctl st)) (synths st)
        \<longrightarrow> list_all (sharesSettings (ctl st)) (synths (updateVoiceCount fresh v2 st)))"
  using updateVoiceCount_kept updateVoiceCount_grown updateVoiceCount_invariant
  by (simp add: updateVoiceCount_synths)

theorem resize_voice_pool_witness:
  "list_all (sharesSettings (ctl (startAudio (mounted toneSynth)))) (synths (startAudio (mounted toneSynth)))
   \<and> length (synths (updateVoiceCount toneSynth 6 (startAudio (mounted toneSynth)))) = 6
   \<and> list_all (sharesSettings (ctl (startAudio (mounted toneSynth))))
        (synths (updateVoiceCount toneSynth 6 (startAudio (mounted toneSynth))))"
proof -
  have h: "list_all (sharesSettings (ctl (startAudio (mounted toneSynth))))
             (synths (startAudio (mounted toneSynth)))"
    by (simp add: startAudio_def mounted_def initialControls_def sharesSettings_def
        triggerAttack_def eval_nat_numeral)
  with resize_voice_pool[of toneSynth 6 "startAudio (mounted toneSynth)"] show ?thesis
    by simp
qed

section \<open>Properties of the sample-point layout\<close>

lemma samplePointY_unfold:
  assumes "i < 2 ^ 52"
  shows "samplePointY h v i = \<lfloor>roundDouble (roundDouble (real h / real v) * (real i + 1 / 2))\<rfloor>"
  by (simp only: samplePointY_def half_exact[OF assms])

lemma quotient_bounds:
  assumes "1 \<le> h" "1 \<le> v" "h \<le> 2 ^ 24" "v \<le> 2 ^ 24"
  shows "real h / real v * (1 - 1 / 2 ^ 53) \<le> roundDouble (real h / real v)"
    and "roundDouble (real h / real v) \<le> real h / real v * (1 + 1 / 2 ^ 53)"
    and "1 / 2 ^ 24 \<le> real h / real v"
proof -
  have v: "0 < real v" "real v \<le> 2 ^ 24" using assms by simp_all
  have h: "1 \<le> real h" using assms by simp
  have "1 / 2 ^ 24 \<le> 1 / real v" using v by (simp add: frac_le)
  also have "\<dots> \<le> real h / real v" using h v by (simp add: divide_right_mono)
  finally show k: "1 / 2 ^ 24 \<le> real h / real v" .
  have "(1::real) / 2 ^ 26 \<le> 1 / 2 ^ 24" by simp
  then have "1 / 2 ^ 26 \<le> real h / real v" using k by linarith
  then show "real h / real v * (1 - 1 / 2 ^ 53) \<le> roundDouble (real h / real v)"
    and "roundDouble (real h / real v) \<le> real h / real v * (1 + 1 / 2 ^ 53)"
    by (rule roundDouble_rel)+
qed

lemma product_bounds:
  assumes "1 \<le> h" "1 \<le> v" "h \<le> 2 ^ 24" "v \<le> 2 ^ 24" "i < v"
  defines "P \<equiv> roundDouble (real h / real v) * (real i + 1 / 2)"
  shows "1 / 2 ^ 26 \<le> P" and "P \<le> real h / real v * (1 + 1 / 2 ^ 53) * (real v - 1 / 2)"
proof -
  let ?K = "real h / real v" and ?A = "roundDouble (real h / real v)"
  note q = quotient_bounds[OF assms(1-4)]
  have "(0::real) < 1 / 2 ^ 24" by simp
  then have K: "0 < ?K" using q(3) by linarith
  have "1 / 2 ^ 24 * (1 - 1 / 2 ^ 53) \<le> ?K * (1 - 1 / 2 ^ 53)"
    using q(3) by (intro mult_right_mono) auto
  then have A: "1 / 2 ^ 25 \<le> ?A" using q(1) by simp
  have "1 / 2 ^ 25 * (1 / 2) \<le> ?A * (real i + 1 / 2)"
    using A by (intro mult_mono) auto
  then show "1 / 2 ^ 26 \<le> P" by (simp add: P_def)
  have i: "real i + 1 / 2 \<le> real v - 1 / 2" using assms(5) by simp
  have A0: "0 \<le> ?A" using A by simp
  have "P \<le> ?A * (real v - 1 / 2)" unfolding P_def using i A0 by (intro mult_left_mono)
  also have "\<dots> \<le> ?K * (1 + 1 / 2 ^ 53) * (real v - 1 / 2)"
    using q(2) assms(2) by (intro mult_right_mono) auto
  finally show "P \<le> ?K * (1 + 1 / 2 ^ 53) * (real v - 1 / 2)" .
qed

lemma samplePointY_range:
  assumes "1 \<le> h" "1 \<le> v" "h \<le> 2 ^ 24" "v \<le> 2 ^ 24" "i < v"
  shows "withinAxis h (samplePointY h v i)"
proof -
  let ?K = "real h / real v"
  define P where "P = roundDouble ?K * (real i + 1 / 2)"
  note p = product_bounds[OF assms, folded P_def]
  note r = roundDouble_rel[OF p(1)]
  have i52: "i < 2 ^ 52"
  proof -
    have "i < 2 ^ 24" using assms by linarith
    also have "(2::nat) ^ 24 < 2 ^ 52" by simp
    finally show ?thesis .
  qed
  have y: "samplePointY h v i = \<lfloor>roundDouble P\<rfloor>"
    using samplePointY_unfold[OF i52] by (simp add: P_def)
  have "(0::real) < 1 / 2 ^ 26" by simp
  then have P0: "0 \<le> P" using p(1) by linarith
  have lo: "0 \<le> roundDouble P" using P0 by (rule roundDouble_nonneg)
  have v: "real v \<le> 2 ^ 24" "1 \<le> real v" using assms by simp_all
  have w: "(1 + 1 / 2 ^ 53) * (real v - 1 / 2) * (1 + 1 / 2 ^ 53) < real v"
    using v by (simp add: algebra_simps)
  have "(0::real) < 1 / 2 ^ 24" by simp
  then have K: "0 < ?K" using quotient_bounds(3)[OF assms(1-4)] by linarith
  have "roundDouble P \<le> P * (1 + 1 / 2 ^ 53)" using r(2) .
  also have "\<dots> \<le> (?K * (1 + 1 / 2 ^ 53) * (real v - 1 / 2)) * (1 + 1 / 2 ^ 53)"
    using p(2) by (intro mult_right_mono) auto
  also have "\<dots> = ?K * ((1 + 1 / 2 ^ 53) * (real v - 1 / 2) * (1 + 1 / 2 ^ 53))"
    by (simp only: mult.assoc)
  also have "\<dots> < ?K * real v" using w K by (intro mult_strict_left_mono)
  also have "\<dots> = real h" using assms(2) by simp
  finally have hi: "roundDouble P < real h" .
  have "\<lfloor>roundDouble P\<rfloor> < int h" using hi by (simp add: floor_less_iff)
  moreover have "0 \<le> \<lfloor>roundDouble P\<rfloor>" using lo by simp
  ultimately show ?thesis using y by (simp add: withinAxis_def)
qed

lemma samplePointY_square:
  assumes "i < 2 ^ 52" "0 < h"
  shows "samplePointY h h i = int i"
proof -
  have "\<bar>2 * int i + 1\<bar> < 2 ^ 53" using assms by simp
  from roundDouble_half[OF this]
  have "roundDouble (real i + 1 / 2) = real i + 1 / 2" by (simp add: add_divide_distrib)
  moreover have "\<lfloor>real i + 1 / 2\<rfloor> = int i" by linarith
  ultimately show ?thesis using assms(2) by (simp add: samplePointY_unfold[OF assms(1)])
qed

lemma samplePointY_step:
  assumes "1 \<le> v" "v < h" "h \<le> 2 ^ 24" "i < j" "j < v"
  shows "samplePointY h v i < samplePointY h v j"
proof -
  let ?K = "real h / real v" and ?A = "roundDouble (real h / real v)"
  have h1: "1 \<le> h" and v24: "v \<le> 2 ^ 24" and iv: "i < v" using assms by linarith+
  define Pi where "Pi = ?A * (real i + 1 / 2)"
  define Pj where "Pj = ?A * (real j + 1 / 2)"
  note q = quotient_bounds[OF h1 assms(1,3) v24]
  note pi = product_bounds[OF h1 assms(1,3) v24 iv, folded Pi_def]
  note pj = product_bounds[OF h1 assms(1,3) v24 assms(5), folded Pj_def]
  note ri = roundDouble_rel[OF pi(1)]
  note rj = roundDouble_rel[OF pj(1)]
  have v: "0 < real v" "real v \<le> 2 ^ 24" using assms(1) v24 by simp_all
  have "real v + 1 \<le> real h" using assms(2) by simp
  then have "(real v + 1) / real v \<le> ?K" using v by (simp add: divide_right_mono)
  moreover have "(real v + 1) / real v = 1 + 1 / real v" using v by (simp add: field_simps)
  moreover have "1 / 2 ^ 24 \<le> 1 / real v" using v by (simp add: frac_le)
  ultimately have K: "1 + 1 / 2 ^ 24 \<le> ?K" by linarith
  have "(1 + 1 / 2 ^ 24) * (1 - 1 / 2 ^ 53) \<le> ?K * (1 - 1 / 2 ^ 53)"
    using K by (intro mult_right_mono) auto
  then have A: "1 + 1 / 2 ^ 25 \<le> ?A" using q(1) by simp
  have "?A * 1 \<le> ?A * (real j - real i)" using A assms(4) by (intro mult_left_mono) auto
  then have d: "1 + 1 / 2 ^ 25 \<le> Pj - Pi" using A by (simp add: Pi_def Pj_def algebra_simps)
  have Kv: "?K * real v = real h" using v by simp
  have "Pj \<le> ?K * (1 + 1 / 2 ^ 53) * (real v - 1 / 2)" using pj(2) .
  also have "\<dots> \<le> ?K * (1 + 1 / 2 ^ 53) * real v"
    using q(3) by (intro mult_left_mono) auto
  also have "\<dots> = (?K * real v) * (1 + 1 / 2 ^ 53)" by (simp only: mult.assoc mult.commute)
  also have "\<dots> = real h * (1 + 1 / 2 ^ 53)" by (simp only: Kv)
  also have "\<dots> \<le> 2 ^ 24 * (1 + 1 / 2 ^ 53)" using assms(3) by (intro mult_right_mono) auto
  finally have Pj25: "Pj \<le> 2 ^ 25" by simp
  have "(0::real) < 1 / 2 ^ 26" by simp
  then have Pi0: "0 \<le> Pi" using pi(1) by linarith
  have "Pi \<le> Pj" using d by simp
  then have Pi25: "Pi \<le> 2 ^ 25" using Pj25 by linarith
  have "Pj * (1 - 1 / 2 ^ 53) = Pj - Pj / 2 ^ 53" by (simp add: algebra_simps)
  moreover have "Pj / 2 ^ 53 \<le> 2 ^ 25 / 2 ^ 53" using Pj25 by (simp add: divide_right_mono)
  ultimately have lo: "Pj - 1 / 2 ^ 28 \<le> roundDouble Pj" using rj(1) by simp
  have "Pi * (1 + 1 / 2 ^ 53) = Pi + Pi / 2 ^ 53" by (simp add: algebra_simps)
  moreover have "Pi / 2 ^ 53 \<le> 2 ^ 25 / 2 ^ 53" using Pi25 by (simp add: divide_right_mono)
  ultimately have hi: "roundDouble Pi \<le> Pi + 1 / 2 ^ 28" using ri(2) by simp
  have "roundDouble Pi + 1 \<le> roundDouble Pj" using lo hi d by simp
  then have "\<lfloor>roundDouble Pi + 1\<rfloor> \<le> \<lfloor>roundDouble Pj\<rfloor>" by (rule floor_mono)
  then have "\<lfloor>roundDouble Pi\<rfloor> < \<lfloor>roundDouble Pj\<rfloor>" by simp
  moreover have "i < 2 ^ 52" "j < 2 ^ 52"
  proof -
    have "(2::nat) ^ 24 < 2 ^ 52" by simp
    then show "i < 2 ^ 52" "j < 2 ^ 52" using assms v24 by linarith+
  qed
  ultimately show ?thesis
    by (simp add: samplePointY_unfold Pi_def Pj_def)
qed

lemma samplePointY_strict:
  assumes "1 \<le> v" "v \<le> h" "h \<le> 2 ^ 24" "i < j" "j < v"
  shows "samplePointY h v i < samplePointY h v j"
proof (cases "v = h")
  case True
  have "(2::nat) ^ 24 < 2 ^ 52" by simp
  then have "i < 2 ^ 52" "j < 2 ^ 52" using assms by linarith+
  then show ?thesis using True assms by (simp add: samplePointY_square)
next
  case False
  then have "v < h" using assms(2) by simp
  then show ?thesis using assms by (intro samplePointY_step) auto
qed

lemma samplePointY_single:
  assumes "h < 2 ^ 52"
  shows "samplePointY h 1 0 = int h div 2"
proof -
  have h: "roundDouble (real h) = real h" using assms by (intro roundDouble_of_nat) simp
  have "\<bar>int h\<bar> < 2 ^ 53" using assms by simp
  from roundDouble_half[OF this] have r: "roundDouble (real h / 2) = real h / 2" by simp
  have f: "\<lfloor>real h / 2\<rfloor> = int h div 2"
    using floor_divide_of_int_eq[of "int h" 2, where ?'a = real] by simp
  have "samplePointY h 1 0 = \<lfloor>roundDouble (roundDouble (real h / real 1) * (real 0 + 1 / 2))\<rfloor>"
    by (rule samplePointY_unfold) simp
  also have "roundDouble (real h / real 1) * (real 0 + 1 / 2) = real h / 2" using h by simp
  finally show ?thesis by (simp only: r f)
qed

text \<open>The row of voice 3 of 7 on 122 rows: \<open>122 / 7\<close> is rounded down, and the product with
  3.5 is the double below 61, so the row is 60 (in exact arithmetic it is 61). And the rows of
  four voices on fifty rows.\<close>

lemma quot_122_7: "roundDouble (122 / 7) = 4905706736957147 / 2 ^ 48"
proof -
  have "roundDouble (122 / 7) = real_of_int (roundEven ((122 / 7) * 2 ^ 48)) * 2 powr (real_of_int 4 - 52)"
    by (rule roundDouble_scaled) (simp_all add: powr_minus_divide)
  also have "roundEven ((122 / 7) * 2 ^ 48) = 4905706736957147"
    by (simp add: roundEven_def Let_def)
  finally show ?thesis by (simp add: powr_minus_divide)
qed

lemma row_122_7_3: "roundDouble (4905706736957147 / 2 ^ 48 * (7 / 2)) = 8584986789675007 / 2 ^ 47"
proof -
  have "roundDouble (4905706736957147 / 2 ^ 48 * (7 / 2)) = real_of_int (roundEven ((4905706736957147 / 2 ^ 48 * (7 / 2)) * 2 ^ 47)) * 2 powr (real_of_int 5 - 52)"
    by (rule roundDouble_scaled) (simp_all add: powr_minus_divide)
  also have "roundEven ((4905706736957147 / 2 ^ 48 * (7 / 2)) * 2 ^ 47) = 8584986789675007"
    by (simp add: roundEven_def Let_def)
  finally show ?thesis by (simp add: powr_minus_divide)
qed

lemma samplePointY_rounded: "samplePointY 122 7 3 = 60"
proof -
  have "samplePointY 122 7 3 = \<lfloor>roundDouble (roundDouble (122 / 7) * (7 / 2))\<rfloor>"
    using samplePointY_unfold[of 3 122 7] by simp
  also have "\<dots> = \<lfloor>roundDouble (4905706736957147 / 2 ^ 48 * (7 / 2))\<rfloor>" by (simp only: quot_122_7)
  also have "\<dots> = \<lfloor>(8584986789675007 / 2 ^ 47 :: real)\<rfloor>" by (simp only: row_122_7_3)
  also have "\<dots> = 60" by (simp add: floor_eq_iff)
  finally show ?thesis .
qed

lemma samplePointY_fifty: "map (samplePointY 50 4) [0..<4] = [6, 18, 31, 43]"
proof -
  have q: "roundDouble (25 / 2) = 25 / 2" using roundDouble_half[of 25] by simp
  have r: "roundDouble (25 / 4) = 25 / 4" "roundDouble (75 / 4) = 75 / 4"
    "roundDouble (125 / 4) = 125 / 4" "roundDouble (175 / 4) = 175 / 4"
    using roundDouble_dyadic[of 25 2] roundDouble_dyadic[of 75 2] roundDouble_dyadic[of 125 2]
      roundDouble_dyadic[of 175 2]
    by simp_all
  have "samplePointY 50 4 i = \<lfloor>roundDouble (25 / 2 * (real i + 1 / 2))\<rfloor>" if "i < 4" for i
    using samplePointY_unfold[of i 50 4] that q by simp
  then have "samplePointY 50 4 0 = 6" "samplePointY 50 4 1 = 18" "samplePointY 50 4 2 = 31"
    "samplePointY 50 4 3 = 43"
    using r by (simp_all add: floor_eq_iff)
  moreover have "[0..<4] = [0, 1, 2, 3]" by (simp add: upt_rec)
  ultimately show ?thesis by simp
qed

lemma int_div_less:
  assumes "(0::int) < m" "a < m * h"
  shows "a div m < h"
proof (rule ccontr)
  assume "\<not> a div m < h"
  then have "h \<le> a div m" by simp
  then have "m * h \<le> m * (a div m)" using assms(1) by (simp add: mult_left_mono)
  moreover have "a = m * (a div m) + a mod m" by simp
  moreover have "0 \<le> a mod m" using assms(1) by simp
  ultimately show False using assms(2) by linarith
qed

lemma sorted_wrt_map_upt:
  assumes "\<And>i j. i < j \<Longrightarrow> j < n \<Longrightarrow> f i < (f j :: int)"
  shows "sorted_wrt (<) (map f [0..<n])"
  using assms by (simp add: sorted_wrt_iff_nth_less)

lemma spaced_floor:
  "\<lfloor>real i * (real L - 1) / (real v - 1)\<rfloor> = (int i * (int L - 1)) div (int v - 1)"
proof -
  have "real i * (real L - 1) / (real v - 1)
          = real_of_int (int i * (int L - 1)) / real_of_int (int v - 1)"
    by simp
  then show ?thesis by (simp only: floor_divide_of_int_eq)
qed

lemma quotient_floor:
  assumes "0 \<le> a" "1 \<le> b" "b < 2 ^ 24" "a \<le> b * m" "m < 2 ^ 24"
  shows "\<lfloor>roundDouble (real_of_int a / real_of_int b)\<rfloor> = a div b"
proof (cases "a mod b = 0")
  case True
  then have "a = b * (a div b)" by auto
  then have "real_of_int a = real_of_int b * real_of_int (a div b)"
    by (metis of_int_mult)
  then have q: "real_of_int a / real_of_int b = real_of_int (a div b)" using assms(2) by simp
  have "0 \<le> a div b" using assms(1,2) by (simp add: pos_imp_zdiv_nonneg_iff)
  moreover have "a div b \<le> m"
  proof -
    have "a div b \<le> (b * m) div b" using assms(2,4) by (intro zdiv_mono1) auto
    then show ?thesis using assms(2) by simp
  qed
  ultimately have "\<bar>a div b\<bar> < 2 ^ 53" using assms(5) by simp
  from roundDouble_of_int[OF this] show ?thesis by (simp add: q)
next
  case False
  let ?q = "real_of_int a / real_of_int b"
  let ?f = "a div b"
  have b: "0 < real_of_int b" "real_of_int b < 2 ^ 24" using assms(2,3) by simp_all
  have r: "1 \<le> a mod b" "a mod b \<le> b - 1"
    using False assms(2) pos_mod_sign[of b a] pos_mod_bound[of b a] by linarith+
  have "a = b * ?f + a mod b" by simp
  then have "real_of_int a = real_of_int b * real_of_int ?f + real_of_int (a mod b)"
    by (metis of_int_add of_int_mult)
  then have q: "?q = real_of_int ?f + real_of_int (a mod b) / real_of_int b"
    using b by (simp add: field_simps)
  have ib: "1 / 2 ^ 24 < 1 / real_of_int b" using b by (simp add: field_simps)
  have lo: "real_of_int ?f + 1 / real_of_int b \<le> ?q"
    using r(1) b by (simp add: q divide_right_mono)
  have "real_of_int (a mod b) \<le> real_of_int (b - 1)" using r(2) by (simp only: of_int_le_iff)
  then have "real_of_int (a mod b) \<le> real_of_int b - 1" by simp
  then have "real_of_int (a mod b) / real_of_int b \<le> (real_of_int b - 1) / real_of_int b"
    using b by (intro divide_right_mono) auto
  moreover have "(real_of_int b - 1) / real_of_int b = 1 - 1 / real_of_int b"
    using b by (simp add: diff_divide_distrib)
  ultimately have hi: "?q \<le> real_of_int ?f + 1 - 1 / real_of_int b"
    using q by linarith
  have "real_of_int a \<le> real_of_int b * real_of_int m"
    using assms(4) by (metis of_int_le_iff of_int_mult)
  then have "?q \<le> real_of_int m" using b by (simp add: field_simps)
  then have qm: "?q \<le> 2 ^ 24" using assms(5) by simp
  have f0: "0 \<le> real_of_int ?f" using assms(1,2) by (simp add: pos_imp_zdiv_nonneg_iff)
  have "(1::real) / 2 ^ 26 \<le> 1 / 2 ^ 24" by simp
  then have q0: "1 / 2 ^ 26 \<le> ?q" using lo ib f0 by linarith
  note e = roundDouble_rel[OF q0]
  have s: "?q * (1 / 2 ^ 53) \<le> 1 / 2 ^ 29"
  proof -
    have "?q * (1 / 2 ^ 53) \<le> 2 ^ 24 * (1 / 2 ^ 53)" using qm by (intro mult_right_mono) auto
    then show ?thesis by simp
  qed
  have e1: "?q - ?q * (1 / 2 ^ 53) \<le> roundDouble ?q" using e(1) by (simp add: algebra_simps)
  have e2: "roundDouble ?q \<le> ?q + ?q * (1 / 2 ^ 53)" using e(2) by (simp add: algebra_simps)
  have "(1::real) / 2 ^ 29 < 1 / 2 ^ 24" by simp
  then have g: "1 / 2 ^ 29 < 1 / real_of_int b" using ib by linarith
  have "real_of_int ?f \<le> roundDouble ?q" using lo e1 s g by linarith
  moreover have "roundDouble ?q < real_of_int ?f + 1" using hi e2 s g by linarith
  ultimately show ?thesis by (intro floor_unique) auto
qed

lemma spacedPoint_div:
  assumes "2 \<le> v" "1 \<le> L" "L \<le> 2 ^ 24" "v \<le> 2 ^ 24" "i < v"
  shows "spacedPoint L v i = Some ((int i * (int L - 1)) div (int v - 1))"
proof -
  let ?a = "int i * (int L - 1)" and ?b = "int v - 1"
  have a0: "0 \<le> ?a" using assms by simp
  have b: "1 \<le> ?b" "?b < 2 ^ 24" using assms by simp_all
  have "int i \<le> ?b" using assms by simp
  then have ab: "?a \<le> ?b * (int L - 1)" using assms by (intro mult_right_mono) auto
  have m: "int L - 1 < 2 ^ 24" using assms by simp
  have "?b * (int L - 1) \<le> 2 ^ 24 * (int L - 1)" using b assms by (intro mult_right_mono) auto
  also have "\<dots> \<le> 2 ^ 24 * 2 ^ 24" using m by (intro mult_left_mono) auto
  finally have "\<bar>?a\<bar> < 2 ^ 53" using ab a0 by simp
  from roundDouble_of_int[OF this]
  have r: "roundDouble (real_of_int ?a) = real_of_int ?a" .
  have n: "int v - 1 \<noteq> 0" using assms by simp
  show ?thesis
    unfolding spacedPoint_def r using n quotient_floor[OF a0 b ab m] by (simp only: if_False)
qed

lemma updateSamplePoints_points:
  "app_canvas st = Some c \<Longrightarrow> height c \<noteq> 0 \<Longrightarrow>
     samplePoints (updateSamplePoints st)
       = map (spacedPoint (height c) (numberOfNotes st)) [0..<numberOfNotes st]"
  by (simp add: updateSamplePoints_def)

lemma spaced_strict:
  assumes "2 \<le> v" "v \<le> L" "i < j"
  shows "(int i * (int L - 1)) div (int v - 1) < (int j * (int L - 1)) div (int v - 1)"
proof -
  let ?m = "int v - 1" and ?a = "int i * (int L - 1)"
  have m: "0 < ?m" using assms by simp
  have "?a + ?m \<le> int (Suc i) * (int L - 1)" using assms by (simp add: algebra_simps)
  also have "\<dots> \<le> int j * (int L - 1)" using assms by (intro mult_right_mono) auto
  finally have "(?a + ?m) div ?m \<le> (int j * (int L - 1)) div ?m" by (rule zdiv_mono1) (rule m)
  moreover have "(?a + ?m) div ?m = ?a div ?m + 1" using m by simp
  ultimately show ?thesis by simp
qed

lemma spaced_range:
  assumes "2 \<le> v" "1 \<le> L" "i < v"
  shows "withinAxis L ((int i * (int L - 1)) div (int v - 1))"
proof -
  let ?m = "int v - 1"
  have m: "0 < ?m" using assms by simp
  have "0 \<le> int i * (int L - 1)" using assms by simp
  then have lo: "0 \<le> (int i * (int L - 1)) div ?m" using m by (simp add: pos_imp_zdiv_nonneg_iff)
  have "int i \<le> ?m" using assms by simp
  then have "int i * (int L - 1) \<le> ?m * (int L - 1)" using assms by (intro mult_right_mono) auto
  then have "(int i * (int L - 1)) div ?m \<le> (?m * (int L - 1)) div ?m" by (rule zdiv_mono1) (rule m)
  also have "\<dots> = int L - 1" using m by simp
  finally show ?thesis using lo by (simp add: withinAxis_def)
qed

lemma evenlySpaced_div:
  "evenlySpaced L v = map (\<lambda>i. (int i * (int L - 1)) div (int v - 1)) [0..<v]"
  unfolding evenlySpaced_def by (simp only: spaced_floor)

text \<open>
  C4, as stated: for every \<open>v \<ge> 1\<close> and \<open>L > 0\<close> the coordinates are strictly increasing,
  equal to \<open>floor(i * (L - 1) / (v - 1))\<close> for \<open>v > 1\<close>, and the midpoint for \<open>v = 1\<close>. Three
  voices on an axis of two pixels share a coordinate; one voice in app.sveltep gets
  \<open>NaN\<close>; and AudioVisualizer.svelte places four voices on fifty pixels at 6, 18, 31, 43,
  not at 0, 16, 32, 49.
\<close>

theorem samplePoints_counterexample:
  "map (spacedPoint 2 3) [0..<3] = [Some 0, Some 0, Some 1]
   \<and> map (spacedPoint 50 1) [0..<1] = [None]
   \<and> map (samplePointY 50 4) [0..<4] = [6, 18, 31, 43]
   \<and> evenlySpaced 50 4 = [0, 16, 32, 49]"
proof -
  have "spacedPoint 2 3 i = Some ((int i * (int 2 - 1)) div (int 3 - 1))" if "i < 3" for i
    using that by (intro spacedPoint_div) simp_all
  then have "spacedPoint 2 3 0 = Some 0" "spacedPoint 2 3 1 = Some 0" "spacedPoint 2 3 2 = Some 1"
    by simp_all
  moreover have "[0..<3] = [0, 1, 2]" by (simp add: upt_rec)
  ultimately have a: "map (spacedPoint 2 3) [0..<3] = [Some 0, Some 0, Some 1]" by simp
  have b: "map (spacedPoint 50 1) [0..<1] = [None]" by (simp add: spacedPoint_def)
  have c: "evenlySpaced 50 4 = [0, 16, 32, 49]" by (simp add: evenlySpaced_div upt_rec)
  show ?thesis using a b c samplePointY_fifty by simp
qed

text \<open>
  C4, amended: for every voice count \<open>v \<ge> 1\<close> and axis length \<open>L \<ge> 1\<close>, the coordinates
  of AudioVisualizer.svelte, \<open>floor(L / v * (i + 0.5))\<close> for \<open>i = 0, ..., v - 1\<close> as the
  machine rounds it, are \<open>v\<close> values; they lie within \<open>[0, L - 1]\<close> (for \<open>v\<close> and \<open>L\<close> up
  to \<open>2^24\<close>), they are strictly increasing when \<open>v \<le> L\<close>, and for one voice the
  coordinate is the midpoint \<open>floor(L / 2)\<close>. The layout \<open>floor(i * (L - 1) / (v - 1))\<close>, for
  \<open>v \<ge> 2\<close>, lies within \<open>[0, L - 1]\<close> and is strictly increasing when \<open>v \<le> L\<close>; it is
  what app.sveltep computes (for \<open>v\<close> and \<open>L\<close> up to \<open>2^24\<close>, where the rounded quotient
  has the floor of the exact one).
\<close>

theorem samplePoints_layout:
  assumes "1 \<le> v" and "1 \<le> L"
  shows "length (map (samplePointY L v) [0..<v]) = v
         \<and> (v \<le> 2 ^ 24 \<and> L \<le> 2 ^ 24 \<longrightarrow>
              list_all (withinAxis L) (map (samplePointY L v) [0..<v]))
         \<and> (v \<le> L \<and> L \<le> 2 ^ 24 \<longrightarrow> sorted_wrt (<) (map (samplePointY L v) [0..<v]))
         \<and> (L < 2 ^ 52 \<longrightarrow> samplePointY L 1 0 = int L div 2)
         \<and> (2 \<le> v \<longrightarrow>
              list_all (withinAxis L) (evenlySpaced L v)
              \<and> (v \<le> L \<longrightarrow> sorted_wrt (<) (evenlySpaced L v))
              \<and> (v \<le> 2 ^ 24 \<and> L \<le> 2 ^ 24 \<longrightarrow>
                    map (spacedPoint L v) [0..<v] = map Some (evenlySpaced L v)))"
proof -
  have a: "sorted_wrt (<) (map (samplePointY L v) [0..<v])" if "v \<le> L" "L \<le> 2 ^ 24"
    by (rule sorted_wrt_map_upt) (rule samplePointY_strict[OF assms(1) that])
  have b: "list_all (withinAxis L) (map (samplePointY L v) [0..<v])"
    if "v \<le> 2 ^ 24" "L \<le> 2 ^ 24"
    using samplePointY_range[OF assms(2,1) that(2,1)] by (simp add: list_all_iff)
  have s: "samplePointY L 1 0 = int L div 2" if "L < 2 ^ 52"
    using that by (rule samplePointY_single)
  have c: "map (spacedPoint L v) [0..<v] = map Some (evenlySpaced L v)"
    if "2 \<le> v" "v \<le> 2 ^ 24" "L \<le> 2 ^ 24"
    using spacedPoint_div[OF that(1) assms(2) that(3,2)] by (simp add: evenlySpaced_div)
  have d: "sorted_wrt (<) (evenlySpaced L v)" if "2 \<le> v" "v \<le> L"
    unfolding evenlySpaced_div
    by (rule sorted_wrt_map_upt) (rule spaced_strict[OF that])
  have e: "list_all (withinAxis L) (evenlySpaced L v)" if "2 \<le> v"
    using spaced_range[OF that assms(2)] by (simp add: evenlySpaced_div list_all_iff)
  show ?thesis using a b c d e s by simp
qed

theorem samplePoints_layout_witness:
  "(1::nat) \<le> 4 \<and> (1::nat) \<le> 50 \<and> (4::nat) \<le> 2 ^ 24 \<and> (50::nat) \<le> 2 ^ 24
   \<and> (4::nat) \<le> 50 \<and> (2::nat) \<le> 4 \<and> (50::nat) < 2 ^ 52
   \<and> list_all (withinAxis 50) (map (samplePointY 50 4) [0..<4])
   \<and> sorted_wrt (<) (map (samplePointY 50 4) [0..<4])
   \<and> samplePointY 50 1 0 = 25
   \<and> map (spacedPoint 50 4) [0..<4] = map Some (evenlySpaced 50 4)
   \<and> list_all (withinAxis 50) (evenlySpaced 50 4)
   \<and> sorted_wrt (<) (evenlySpaced 50 4)"
proof -
  have h: "(1::nat) \<le> 4" "(1::nat) \<le> 50" by simp_all
  from samplePoints_layout[OF h] show ?thesis by simp
qed

section \<open>Properties of the turn-round cursor\<close>

lemma bounceStep_whole:
  assumes "0 \<le> P" "P < Lw" "0 \<le> S" "Lw + S < 2 ^ 53" "D = 1 \<or> D = - 1"
  shows "bounceStep (real_of_int Lw) (real_of_int S) (real_of_int P, real_of_int D)
           = (if P + D * S \<ge> Lw \<or> P + D * S < 0
              then (real_of_int P, real_of_int (- D))
              else (real_of_int (P + D * S), real_of_int D))"
proof -
  have b1: "\<bar>D * S\<bar> < 2 ^ 53" using assms by (auto simp: abs_mult)
  have b2: "\<bar>P + D * S\<bar> < 2 ^ 53" using assms by auto
  have b3: "\<bar>- D\<bar> < 2 ^ 53" using assms by auto
  have b4: "\<bar>- D * S\<bar> < 2 ^ 53" using assms by (auto simp: abs_mult)
  have b5: "\<bar>P\<bar> < 2 ^ 53" using assms by auto
  have r1: "roundDouble (real_of_int D * real_of_int S) = real_of_int (D * S)"
    using roundDouble_of_int[OF b1] by simp
  have r2: "roundDouble (real_of_int P + real_of_int (D * S)) = real_of_int (P + D * S)"
    using roundDouble_of_int[OF b2] by simp
  have r3: "roundDouble (real_of_int D * (- 1)) = real_of_int (- D)"
    using roundDouble_of_int[OF b3] by simp
  have r4: "roundDouble (real_of_int (- D) * real_of_int S) = real_of_int (- D * S)"
    using roundDouble_of_int[OF b4] by simp
  have r5: "roundDouble (real_of_int (P + D * S) + real_of_int (- D * S)) = real_of_int P"
    using roundDouble_of_int[OF b5] by simp
  have c1: "(real_of_int (P + D * S) \<ge> real_of_int Lw) = (P + D * S \<ge> Lw)" by (simp only: of_int_le_iff)
  have c2: "(real_of_int (P + D * S) < 0) = (P + D * S < 0)" by (simp only: of_int_less_0_iff)
  show ?thesis
    unfolding bounceStep_def Let_def fst_conv snd_conv r1 r2 r3 r4 r5 c1 c2 by simp
qed

lemma bounce_iter_whole:
  assumes "0 \<le> P" "P < Lw" "0 \<le> S" "Lw + S < 2 ^ 53" "D = 1 \<or> D = - 1"
  shows "\<exists>P' D'. (bounceStep (real_of_int Lw) (real_of_int S) ^^ n) (real_of_int P, real_of_int D)
                    = (real_of_int P', real_of_int D')
               \<and> 0 \<le> P' \<and> P' < Lw \<and> (D' = 1 \<or> D' = - 1)"
proof (induction n)
  case 0
  show ?case using assms by auto
next
  case (Suc n)
  then obtain P' D' where e: "(bounceStep (real_of_int Lw) (real_of_int S) ^^ n) (real_of_int P, real_of_int D)
                    = (real_of_int P', real_of_int D')"
    and r: "0 \<le> P'" "P' < Lw" "D' = 1 \<or> D' = - 1" by blast
  note w = bounceStep_whole[OF r(1,2) assms(3,4) r(3)]
  show ?case
  proof (cases "P' + D' * S \<ge> Lw \<or> P' + D' * S < 0")
    case True
    then have "(bounceStep (real_of_int Lw) (real_of_int S) ^^ Suc n) (real_of_int P, real_of_int D)
        = (real_of_int P', real_of_int (- D'))"
      using e w by simp
    moreover have "- D' = 1 \<or> - D' = - 1" using r(3) by auto
    ultimately show ?thesis using r(1,2) by blast
  next
    case False
    then have "(bounceStep (real_of_int Lw) (real_of_int S) ^^ Suc n) (real_of_int P, real_of_int D)
        = (real_of_int (P' + D' * S), real_of_int D')"
      using e w by simp
    moreover have "0 \<le> P' + D' * S" "P' + D' * S < Lw" using False by auto
    ultimately show ?thesis using r(3) by blast
  qed
qed

lemma bounce_iter_range_whole:
  assumes "0 \<le> P" "P < Lw" "0 \<le> S" "Lw + S < 2 ^ 53" "d = 1 \<or> d = - 1"
  shows "withinScan (real_of_int Lw)
           (fst ((bounceStep (real_of_int Lw) (real_of_int S) ^^ n) (real_of_int P, d)))"
proof -
  obtain D where D: "d = real_of_int D" "D = 1 \<or> D = - 1"
  proof (cases "d = 1")
    case True
    then have "d = real_of_int 1" by simp
    then show ?thesis using that by blast
  next
    case False
    then have "d = real_of_int (- 1)" using assms(5) by simp
    then show ?thesis using that by blast
  qed
  obtain P' D' where "(bounceStep (real_of_int Lw) (real_of_int S) ^^ n) (real_of_int P, real_of_int D)
                    = (real_of_int P', real_of_int D')" "0 \<le> P'" "P' < Lw"
    using bounce_iter_whole[OF assms(1-4) D(2), of n] by blast
  then show ?thesis using D(1) by (simp add: withinScan_def)
qed

lemma bounceStep_whole_real:
  assumes "0 \<le> P" "P < Lw" "0 \<le> S" "Lw + S < 2 ^ 53" "d = 1 \<or> d = - 1"
  shows "bounceStep (real_of_int Lw) (real_of_int S) (real_of_int P, d)
           = (if real_of_int P + d * real_of_int S \<ge> real_of_int Lw \<or> real_of_int P + d * real_of_int S < 0
              then (real_of_int P, - d)
              else (real_of_int P + d * real_of_int S, d))"
proof (cases "d = 1")
  case True
  have "(1::int) = 1 \<or> (1::int) = - 1" by simp
  from bounceStep_whole[OF assms(1-4) this] True show ?thesis
    by (simp del: of_int_add add: of_int_add[symmetric])
next
  case False
  then have d: "d = - 1" using assms(5) by simp
  have "(- 1::int) = 1 \<or> (- 1::int) = - 1" by simp
  from bounceStep_whole[OF assms(1-4) this] d show ?thesis
    by (simp del: of_int_diff add: of_int_diff[symmetric])
qed

lemma bounceStep_turn:
  assumes "d = 1 \<or> d = - 1"
  shows "bounceStep W s (p, d)
     = (if roundDouble (p + roundDouble (d * s)) \<ge> W \<or> roundDouble (p + roundDouble (d * s)) < 0
        then (roundDouble (roundDouble (p + roundDouble (d * s)) + roundDouble (- d * s)), - d)
        else (roundDouble (p + roundDouble (d * s)), d))"
  using assms by (auto simp: bounceStep_def Let_def)

text \<open>Four ticks from 0 on a width of 16 with the speed changed between ticks to 4.6, 7.8,
  3.6 and 8, sum by sum: the third tick leaves the cursor at the double next to 16, the fourth
  turns round from 24 and takes the step of 8 back, to 16.\<close>

lemma speed_46: "roundDouble (4.6) = 2589569785738035 / 2 ^ 49"
proof -
  have "roundDouble (4.6) = real_of_int (roundEven ((4.6) * 2 ^ 50)) * 2 powr (real_of_int 2 - 52)"
    by (rule roundDouble_scaled) (simp_all add: powr_minus_divide)
  also have "roundEven ((4.6) * 2 ^ 50) = 5179139571476070"
    by (simp add: roundEven_def Let_def)
  finally show ?thesis by (simp add: powr_minus_divide)
qed

lemma speed_46_exact: "roundDouble (2589569785738035 / 2 ^ 49) = 2589569785738035 / 2 ^ 49"
  using roundDouble_dyadic[of "2589569785738035" 49] by simp

lemma bounce_tick_1: "bounceStep 16 (roundDouble 4.6) (0, 1) = (2589569785738035 / 2 ^ 49, 1)"
  by (simp only: bounceStep_def Let_def fst_conv snd_conv mult_1 add_0 speed_46 speed_46_exact) simp

lemma speed_78: "roundDouble (7.8) = 8782019273372467 / 2 ^ 50"
proof -
  have "roundDouble (7.8) = real_of_int (roundEven ((7.8) * 2 ^ 50)) * 2 powr (real_of_int 2 - 52)"
    by (rule roundDouble_scaled) (simp_all add: powr_minus_divide)
  also have "roundEven ((7.8) * 2 ^ 50) = 8782019273372467"
    by (simp add: roundEven_def Let_def)
  finally show ?thesis by (simp add: powr_minus_divide)
qed

lemma speed_78_exact: "roundDouble (8782019273372467 / 2 ^ 50) = 8782019273372467 / 2 ^ 50"
  using roundDouble_dyadic[of "8782019273372467" 50] by simp

lemma bounce_sum_2: "roundDouble (2589569785738035 / 2 ^ 49 + 8782019273372467 / 2 ^ 50) = 1745144855606067 / 2 ^ 47"
proof -
  have "roundDouble (2589569785738035 / 2 ^ 49 + 8782019273372467 / 2 ^ 50) = real_of_int (roundEven ((2589569785738035 / 2 ^ 49 + 8782019273372467 / 2 ^ 50) * 2 ^ 49)) * 2 powr (real_of_int 3 - 52)"
    by (rule roundDouble_scaled) (simp_all add: powr_minus_divide)
  also have "roundEven ((2589569785738035 / 2 ^ 49 + 8782019273372467 / 2 ^ 50) * 2 ^ 49) = 6980579422424268"
    by (simp add: roundEven_def Let_def)
  finally show ?thesis by (simp add: powr_minus_divide)
qed

lemma bounce_tick_2: "bounceStep 16 (roundDouble 7.8) (2589569785738035 / 2 ^ 49, 1) = (1745144855606067 / 2 ^ 47, 1)"
  by (simp only: bounceStep_def Let_def fst_conv snd_conv mult_1 add_0 speed_78 speed_78_exact bounce_sum_2) simp

lemma speed_36: "roundDouble (3.6) = 8106479329266893 / 2 ^ 51"
proof -
  have "roundDouble (3.6) = real_of_int (roundEven ((3.6) * 2 ^ 51)) * 2 powr (real_of_int 1 - 52)"
    by (rule roundDouble_scaled) (simp_all add: powr_minus_divide)
  also have "roundEven ((3.6) * 2 ^ 51) = 8106479329266893"
    by (simp add: roundEven_def Let_def)
  finally show ?thesis by (simp add: powr_minus_divide)
qed

lemma speed_36_exact: "roundDouble (8106479329266893 / 2 ^ 51) = 8106479329266893 / 2 ^ 51"
  using roundDouble_dyadic[of "8106479329266893" 51] by simp

lemma bounce_sum_3: "roundDouble (1745144855606067 / 2 ^ 47 + 8106479329266893 / 2 ^ 51) = 9007199254740991 / 2 ^ 49"
proof -
  have "roundDouble (1745144855606067 / 2 ^ 47 + 8106479329266893 / 2 ^ 51) = real_of_int (roundEven ((1745144855606067 / 2 ^ 47 + 8106479329266893 / 2 ^ 51) * 2 ^ 49)) * 2 powr (real_of_int 3 - 52)"
    by (rule roundDouble_scaled) (simp_all add: powr_minus_divide)
  also have "roundEven ((1745144855606067 / 2 ^ 47 + 8106479329266893 / 2 ^ 51) * 2 ^ 49) = 9007199254740991"
    by (simp add: roundEven_def Let_def)
  finally show ?thesis by (simp add: powr_minus_divide)
qed

lemma bounce_tick_3: "bounceStep 16 (roundDouble 3.6) (1745144855606067 / 2 ^ 47, 1) = (9007199254740991 / 2 ^ 49, 1)"
  by (simp only: bounceStep_def Let_def fst_conv snd_conv mult_1 add_0 speed_36 speed_36_exact bounce_sum_3) simp

lemma bounce_sum_4: "roundDouble (9007199254740991 / 2 ^ 49 + 8) = 24"
proof -
  have "roundDouble (9007199254740991 / 2 ^ 49 + 8) = real_of_int (roundEven ((9007199254740991 / 2 ^ 49 + 8) * 2 ^ 48)) * 2 powr (real_of_int 4 - 52)"
    by (rule roundDouble_scaled) (simp_all add: powr_minus_divide)
  also have "roundEven ((9007199254740991 / 2 ^ 49 + 8) * 2 ^ 48) = 6755399441055744"
    by (simp add: roundEven_def Let_def)
  finally show ?thesis by (simp add: powr_minus_divide)
qed

lemma double_8: "roundDouble 8 = 8"
  by (simp add: roundDouble_numeral)

lemma double_neg_8: "roundDouble (- 1 * 8) = - 8"
  by (simp add: roundDouble_neg_numeral)

lemma double_16: "roundDouble (24 + - 8) = 16"
  by (simp add: roundDouble_numeral)

lemma bounce_tick_4: "bounceStep 16 8 (9007199254740991 / 2 ^ 49, 1) = (16, - 1)"
  by (simp only: bounceStep_def Let_def fst_conv snd_conv mult_1 double_8 bounce_sum_4 roundDouble_neg_1 double_neg_8 double_16) simp

lemma bounce_trace:
  "bounceStep 16 8 (bounceStep 16 (roundDouble 3.6) (bounceStep 16 (roundDouble 7.8)
     (bounceStep 16 (roundDouble 4.6) (0, 1)))) = (16, - 1)"
  by (simp only: bounce_tick_1 bounce_tick_2 bounce_tick_3 bounce_tick_4)

text \<open>
  C5, as stated: the position stays within \<open>[0, L)\<close>, the direction is inverted exactly when
  a step would pass a bound, and the overshoot is reflected back into range. The code does
  not reflect: it inverts the direction and takes the step back. From 9 at speed 3 on a
  width of 10 the cursor would reach 12; reflected it would be at 8, the code leaves it at 9.
  And the step back does not always end within range: with the speed changed between ticks
  (4.6, 7.8, 3.6, 8 on a width of 16) the cursor starts at 0 and ends at 16.
\<close>

theorem bounce_reflect_counterexample:
  "fst (bounceStep 10 3 (9, 1)) = 9 \<and> snd (bounceStep 10 3 (9, 1)) = - 1
   \<and> reflectOvershoot 10 (9 + 1 * 3) = 8
   \<and> withinScan 16 0
   \<and> bounceStep 16 8 (bounceStep 16 (roundDouble 3.6) (bounceStep 16 (roundDouble 7.8)
        (bounceStep 16 (roundDouble 4.6) (0, 1)))) = (16, - 1)
   \<and> \<not> withinScan 16 (fst (bounceStep 16 8 (bounceStep 16 (roundDouble 3.6)
        (bounceStep 16 (roundDouble 7.8) (bounceStep 16 (roundDouble 4.6) (0, 1))))))"
proof -
  have "bounceStep (real_of_int 10) (real_of_int 3) (real_of_int 9, 1)
      = (real_of_int 9, - 1)"
    by (subst bounceStep_whole_real) simp_all
  then have "bounceStep 10 3 (9, 1) = (9, - 1)" by simp
  then have a: "fst (bounceStep 10 3 (9, 1)) = 9 \<and> snd (bounceStep 10 3 (9, 1)) = - 1
      \<and> reflectOvershoot 10 (9 + 1 * 3) = 8 \<and> withinScan 16 0"
    by (simp add: reflectOvershoot_def withinScan_def)
  have b: "\<not> withinScan 16 (fst (bounceStep 16 8 (bounceStep 16 (roundDouble 3.6)
        (bounceStep 16 (roundDouble 7.8) (bounceStep 16 (roundDouble 4.6) (0, 1))))))"
    by (simp only: bounce_trace fst_conv withinScan_def) simp
  show ?thesis using a b bounce_trace by blast
qed

text \<open>
  C5, amended: with the direction 1 or -1, a tick inverts the direction exactly when the
  stepped position, as the machine rounds it, is at or past the width or below 0; then the
  step is taken back from there, otherwise the direction is kept and the cursor is at the
  stepped position, which is within \<open>[0, width)\<close>. For a whole-number position within
  \<open>[0, L)\<close>, speed and width (with \<open>L + s\<close> below \<open>2^53\<close>) the cursor stays within \<open>[0, L)\<close>
  on every tick, the direction is inverted exactly when \<open>p + d * s\<close> leaves \<open>[0, L)\<close>, and then
  the cursor is where it was before the tick; otherwise it has moved by one step.
\<close>

theorem bounce_cursor:
  assumes "d = 1 \<or> d = - 1"
  shows "(snd (bounceStep W s (p, d)) = - d)
           = (roundDouble (p + roundDouble (d * s)) \<ge> W \<or> roundDouble (p + roundDouble (d * s)) < 0)
     \<and> (snd (bounceStep W s (p, d)) = - d \<longrightarrow>
          fst (bounceStep W s (p, d))
            = roundDouble (roundDouble (p + roundDouble (d * s)) + roundDouble (- d * s)))
     \<and> (snd (bounceStep W s (p, d)) \<noteq> - d \<longrightarrow>
          snd (bounceStep W s (p, d)) = d
          \<and> fst (bounceStep W s (p, d)) = roundDouble (p + roundDouble (d * s))
          \<and> withinScan W (fst (bounceStep W s (p, d))))
     \<and> (0 \<le> P \<and> P < Lw \<and> 0 \<le> S \<and> Lw + S < 2 ^ 53 \<longrightarrow>
          withinScan (real_of_int Lw)
            (fst ((bounceStep (real_of_int Lw) (real_of_int S) ^^ n) (real_of_int P, d)))
          \<and> (snd (bounceStep (real_of_int Lw) (real_of_int S) (real_of_int P, d)) = - d)
              = (real_of_int P + d * real_of_int S \<ge> real_of_int Lw
                 \<or> real_of_int P + d * real_of_int S < 0)
          \<and> (snd (bounceStep (real_of_int Lw) (real_of_int S) (real_of_int P, d)) = - d \<longrightarrow>
                fst (bounceStep (real_of_int Lw) (real_of_int S) (real_of_int P, d)) = real_of_int P)
          \<and> (snd (bounceStep (real_of_int Lw) (real_of_int S) (real_of_int P, d)) \<noteq> - d \<longrightarrow>
                fst (bounceStep (real_of_int Lw) (real_of_int S) (real_of_int P, d))
                  = real_of_int P + d * real_of_int S))"
proof -
  have d0: "d \<noteq> - d" using assms by auto
  note t = bounceStep_turn[OF assms, of W s p]
  have g: "(snd (bounceStep W s (p, d)) = - d)
           = (roundDouble (p + roundDouble (d * s)) \<ge> W \<or> roundDouble (p + roundDouble (d * s)) < 0)"
    "snd (bounceStep W s (p, d)) = - d \<longrightarrow>
          fst (bounceStep W s (p, d))
            = roundDouble (roundDouble (p + roundDouble (d * s)) + roundDouble (- d * s))"
    "snd (bounceStep W s (p, d)) \<noteq> - d \<longrightarrow>
          snd (bounceStep W s (p, d)) = d
          \<and> fst (bounceStep W s (p, d)) = roundDouble (p + roundDouble (d * s))
          \<and> withinScan W (fst (bounceStep W s (p, d)))"
    using d0 by (auto simp: t withinScan_def)
  have i: "withinScan (real_of_int Lw)
            (fst ((bounceStep (real_of_int Lw) (real_of_int S) ^^ n) (real_of_int P, d)))
          \<and> (snd (bounceStep (real_of_int Lw) (real_of_int S) (real_of_int P, d)) = - d)
              = (real_of_int P + d * real_of_int S \<ge> real_of_int Lw
                 \<or> real_of_int P + d * real_of_int S < 0)
          \<and> (snd (bounceStep (real_of_int Lw) (real_of_int S) (real_of_int P, d)) = - d \<longrightarrow>
                fst (bounceStep (real_of_int Lw) (real_of_int S) (real_of_int P, d)) = real_of_int P)
          \<and> (snd (bounceStep (real_of_int Lw) (real_of_int S) (real_of_int P, d)) \<noteq> - d \<longrightarrow>
                fst (bounceStep (real_of_int Lw) (real_of_int S) (real_of_int P, d))
                  = real_of_int P + d * real_of_int S)"
    if h: "0 \<le> P \<and> P < Lw \<and> 0 \<le> S \<and> Lw + S < 2 ^ 53"
  proof -
    have h': "0 \<le> P" "P < Lw" "0 \<le> S" "Lw + S < 2 ^ 53" using h by simp_all
    note w = bounceStep_whole_real[OF h' assms]
    note r = bounce_iter_range_whole[OF h' assms, of n]
    show ?thesis using r d0 by (auto simp: w)
  qed
  show ?thesis using g i by blast
qed

theorem bounce_cursor_witness:
  "((1::real) = 1 \<or> (1::real) = - 1) \<and> (0::int) \<le> 9 \<and> (9::int) < 10 \<and> (10::int) + 3 < 2 ^ 53
   \<and> snd (bounceStep 10 3 (9, 1)) = - 1 \<and> fst (bounceStep 10 3 (9, 1)) = 9
   \<and> snd (bounceStep 10 3 (2, 1)) = 1 \<and> fst (bounceStep 10 3 (2, 1)) = 5
   \<and> withinScan 10 (fst ((bounceStep 10 3 ^^ 7) (2, 1)))"
proof -
  have d: "(1::real) = 1 \<or> (1::real) = - 1" by simp
  note a = bounce_cursor[OF d, of "real_of_int 10" "real_of_int 3" "real_of_int 9" 9 10 3 7,
      THEN conjunct2, THEN conjunct2, THEN conjunct2]
  note b = bounce_cursor[OF d, of "real_of_int 10" "real_of_int 3" "real_of_int 2" 2 10 3 7,
      THEN conjunct2, THEN conjunct2, THEN conjunct2]
  have a1: "snd (bounceStep 10 3 (9, 1)) = - 1" "fst (bounceStep 10 3 (9, 1)) = 9"
    using a by simp_all
  note k = bounce_cursor[OF d, of "real_of_int 10" "real_of_int 3" "real_of_int 2" 2 10 3 7,
      THEN conjunct2, THEN conjunct2, THEN conjunct1]
  have b0: "snd (bounceStep 10 3 (2, 1)) \<noteq> - 1" "fst (bounceStep 10 3 (2, 1)) = 5"
    "withinScan 10 (fst ((bounceStep 10 3 ^^ 7) (2, 1)))"
    using b by simp_all
  have b1: "snd (bounceStep 10 3 (2, 1)) = 1" using k b0(1) by simp
  show ?thesis using a1 b0 b1 by simp
qed

section \<open>Properties of the pitch mapping\<close>

subsection \<open>Quantized to a scale\<close>

lemma noteIndex_range:
  assumes "table \<noteq> []" "0 \<le> nv" "nv \<le> 1"
  shows "0 \<le> \<lfloor>nv * (real (length table) - 1)\<rfloor>"
    and "\<lfloor>nv * (real (length table) - 1)\<rfloor> < int (length table)"
proof -
  have l: "1 \<le> real (length table)" using assms(1) by (cases table) auto
  then have "0 \<le> nv * (real (length table) - 1)" using assms by simp
  then show "0 \<le> \<lfloor>nv * (real (length table) - 1)\<rfloor>" by simp
  have "nv * (real (length table) - 1) \<le> 1 * (real (length table) - 1)"
    using l assms by (intro mult_right_mono) auto
  then have "nv * (real (length table) - 1) < real (length table)" by simp
  then show "\<lfloor>nv * (real (length table) - 1)\<rfloor> < int (length table)"
    by (simp add: floor_less_iff)
qed

lemma noteIndex_Some:
  "noteIndex table (Some nv) = Some \<lfloor>nv * (real (length table) - 1)\<rfloor>"
  by (simp add: noteIndex_def)

lemma noteFrequency_in_range:
  assumes "table \<noteq> []" "0 \<le> nv" "nv \<le> 1"
  shows "noteFrequency baseFreq table (Some nv)
     = baseFreq * 2 powr (real_of_int (table ! nat \<lfloor>nv * (real (length table) - 1)\<rfloor>) / 12)"
  using noteIndex_range[OF assms]
  by (simp add: noteFrequency_def scaleStep_def noteIndex_Some)




subsection \<open>Monotone in the normalized value\<close>

lemma noteFrequencies_pos: "noteFrequencies b = Some f \<Longrightarrow> 0 < f"
  by (auto simp: noteFrequencies_def split: if_splits)

lemma glide_mono:
  assumes "noteFrequencies b = Some f" "x \<le> y"
  shows "glideFrequency b oct (Some x) = Some (f * 2 powr (real_of_int oct - 4 + x))"
    and "glideFrequency b oct (Some y) = Some (f * 2 powr (real_of_int oct - 4 + y))"
    and "f * 2 powr (real_of_int oct - 4 + x) \<le> f * 2 powr (real_of_int oct - 4 + y)"
proof -
  show "glideFrequency b oct (Some x) = Some (f * 2 powr (real_of_int oct - 4 + x))"
    and "glideFrequency b oct (Some y) = Some (f * 2 powr (real_of_int oct - 4 + y))"
    using assms(1) by (simp_all add: glideFrequency_def)
  have "(2::real) powr (real_of_int oct - 4 + x) \<le> 2 powr (real_of_int oct - 4 + y)"
    using assms(2) by (intro powr_mono) auto
  then show "f * 2 powr (real_of_int oct - 4 + x) \<le> f * 2 powr (real_of_int oct - 4 + y)"
    using noteFrequencies_pos[OF assms(1)] by (intro mult_left_mono) auto
qed

lemma scales_sorted: "sorted (scales sc)"
  by (cases sc) simp_all

lemma scales_nonempty: "scales sc \<noteq> []"
  by (cases sc) simp_all

lemma quantized_mono:
  assumes "sorted table" "table \<noteq> []" "0 \<le> baseFreq" "0 \<le> x" "x \<le> y" "y \<le> 1"
  shows "noteFrequency baseFreq table (Some x) \<le> noteFrequency baseFreq table (Some y)"
proof -
  let ?n = "real (length table) - 1"
  have n: "0 \<le> ?n" using assms(2) by (cases table) auto
  have x1: "x \<le> 1" and y0: "0 \<le> y" using assms by auto
  have "x * ?n \<le> y * ?n" using assms n by (intro mult_right_mono) auto
  then have fl: "\<lfloor>x * ?n\<rfloor> \<le> \<lfloor>y * ?n\<rfloor>" by (rule floor_mono)
  have ix: "0 \<le> \<lfloor>x * ?n\<rfloor>" using noteIndex_range(1)[OF assms(2) assms(4) x1] .
  have iy: "\<lfloor>y * ?n\<rfloor> < int (length table)" using noteIndex_range(2)[OF assms(2) y0 assms(6)] .
  have "nat \<lfloor>x * ?n\<rfloor> \<le> nat \<lfloor>y * ?n\<rfloor>" using fl by simp
  moreover have "nat \<lfloor>y * ?n\<rfloor> < length table" using iy ix fl by linarith
  ultimately have "table ! nat \<lfloor>x * ?n\<rfloor> \<le> table ! nat \<lfloor>y * ?n\<rfloor>"
    using assms(1) by (simp add: sorted_nth_mono)
  then have "real_of_int (table ! nat \<lfloor>x * ?n\<rfloor>) / 12 \<le> real_of_int (table ! nat \<lfloor>y * ?n\<rfloor>) / 12"
    by simp
  then have "(2::real) powr (real_of_int (table ! nat \<lfloor>x * ?n\<rfloor>) / 12)
               \<le> 2 powr (real_of_int (table ! nat \<lfloor>y * ?n\<rfloor>) / 12)"
    by (intro powr_mono) auto
  then have "baseFreq * 2 powr (real_of_int (table ! nat \<lfloor>x * ?n\<rfloor>) / 12)
               \<le> baseFreq * 2 powr (real_of_int (table ! nat \<lfloor>y * ?n\<rfloor>) / 12)"
    using assms(3) by (intro mult_left_mono) auto
  then show ?thesis
    using noteFrequency_in_range[OF assms(2) assms(4) x1]
      noteFrequency_in_range[OF assms(2) y0 assms(6)]
    by simp
qed

text \<open>
  C7. For a fixed base note, octave and scale, the frequency is monotonic non-decreasing in
  the normalized value: in the continuous variant of AudioVisualizer.svelte for each of the
  twelve base notes, and in the scale-quantized variant of app.sveltep over \<open>[0, 1]\<close> for
  each of the four shipped tables and any base frequency, which is not negative.
\<close>

theorem frequency_monotone:
  assumes "x \<le> y"
  shows "(noteFrequencies b = Some f \<longrightarrow>
            (\<exists>fx fy. glideFrequency b oct (Some x) = Some fx
                    \<and> glideFrequency b oct (Some y) = Some fy \<and> fx \<le> fy))
       \<and> (0 \<le> x \<and> y \<le> 1 \<and> 0 \<le> baseFreq \<longrightarrow>
            noteFrequency baseFreq (scales sc) (Some x) \<le> noteFrequency baseFreq (scales sc) (Some y))"
proof (intro conjI impI)
  assume "noteFrequencies b = Some f"
  from glide_mono[OF this assms, of oct]
  show "\<exists>fx fy. glideFrequency b oct (Some x) = Some fx
              \<and> glideFrequency b oct (Some y) = Some fy \<and> fx \<le> fy"
    by blast
next
  assume "0 \<le> x \<and> y \<le> 1 \<and> 0 \<le> baseFreq"
  then show "noteFrequency baseFreq (scales sc) (Some x) \<le> noteFrequency baseFreq (scales sc) (Some y)"
    using quantized_mono[OF scales_sorted scales_nonempty, of baseFreq x y sc] assms by simp
qed

theorem frequency_monotone_witness:
  "(1::real) / 4 \<le> 3 / 4 \<and> noteFrequencies ''A'' = Some 440
   \<and> glideFrequency ''A'' 4 (Some (1 / 4)) = Some (440 * 2 powr (1 / 4))
   \<and> glideFrequency ''A'' 4 (Some (3 / 4)) = Some (440 * 2 powr (3 / 4))
   \<and> (440::real) * 2 powr (1 / 4) \<le> 440 * 2 powr (3 / 4)
   \<and> noteFrequency 196 (scales major) (Some (1 / 4)) \<le> noteFrequency 196 (scales major) (Some (3 / 4))"
proof -
  have n: "noteFrequencies ''A'' = Some 440" by (simp add: noteFrequencies_def)
  have g: "glideFrequency ''A'' 4 (Some (1 / 4)) = Some (440 * 2 powr (1 / 4))"
    "glideFrequency ''A'' 4 (Some (3 / 4)) = Some (440 * 2 powr (3 / 4))"
    using n by (simp_all add: glideFrequency_def)
  have h: "(1::real) / 4 \<le> 3 / 4" by simp
  from frequency_monotone[OF h, of "''A''" 440 4 196 major] n g
  show ?thesis by simp
qed

section \<open>Properties of the pixel lookups\<close>

lemma index_in_frame:
  assumes "length d = 4 * w * h" "0 \<le> x" "x < int w" "0 \<le> y" "y < int h"
  shows "0 \<le> pixelIndex w x y" "pixelIndex w x y + 3 < int (length d)"
proof -
  have "0 \<le> y * int w" using assms by simp
  then show "0 \<le> pixelIndex w x y" using assms by (simp add: pixelIndex_def)
  have "y + 1 \<le> int h" using assms by simp
  then have "(y + 1) * int w \<le> int h * int w" by (intro mult_right_mono) auto
  then have "y * int w + x < int h * int w" using assms by (simp add: algebra_simps)
  then show "pixelIndex w x y + 3 < int (length d)" using assms by (simp add: pixelIndex_def algebra_simps)
qed

lemma byte_max: "real (unat (b :: 8 word)) \<le> 255"
proof -
  have "unat b < 2 ^ LENGTH(8)" by (rule unsigned_less)
  then have "unat b \<le> 255" by simp
  then have "real (unat b) \<le> real 255" by (simp only: of_nat_le_iff)
  then show ?thesis by simp
qed

lemma byte_min: "0 \<le> real (unat (b :: 8 word))"
  by (rule of_nat_0_le_iff)

lemma byteAt_in_buffer:
  assumes "0 \<le> k" "k < int (length d)"
  shows "\<exists>v. byteAt d k = Some v \<and> 0 \<le> v \<and> v \<le> 255"
proof -
  have "byteAt d k = Some (real (unat (d ! nat k)))" using assms by (simp only: byteAt_def) simp
  then show ?thesis using byte_max[of "d ! nat k"] byte_min[of "d ! nat k"] by blast
qed

lemma channel_in_buffer:
  assumes "0 \<le> k" "k < int (length d)"
  shows "normalized (channel d k)"
proof -
  obtain v where "byteAt d k = Some v" "0 \<le> v" "v \<le> 255" using byteAt_in_buffer[OF assms] by blast
  then show ?thesis by (simp add: channel_def normalized_def)
qed

lemma colorValue_normalized:
  "normalized r \<Longrightarrow> normalized g \<Longrightarrow> normalized b \<Longrightarrow> normalized (colorValue (r, g, b, a))"
  by (cases r; cases g; cases b) (simp_all add: normalized_def colorValue_def)

lemma pixelLookup_normalized:
  assumes "length d = 4 * w * h" "0 \<le> x" "x < int w" "0 \<le> y" "y < int h"
  shows "normalized (fst (pixelLookup d w x y))"
    and "normalized (fst (snd (pixelLookup d w x y)))"
    and "normalized (fst (snd (snd (pixelLookup d w x y))))"
    and "normalized (snd (snd (snd (pixelLookup d w x y))))"
    and "normalized (colorValue (pixelLookup d w x y))"
proof -
  note i = index_in_frame[OF assms]
  have r: "normalized (channel d (pixelIndex w x y))" using i by (intro channel_in_buffer) auto
  have g: "normalized (channel d (pixelIndex w x y + 1))" using i by (intro channel_in_buffer) auto
  have b: "normalized (channel d (pixelIndex w x y + 2))" using i by (intro channel_in_buffer) auto
  have a: "normalized (channel d (pixelIndex w x y + 3))" using i by (intro channel_in_buffer) auto
  show "normalized (fst (pixelLookup d w x y))"
    and "normalized (fst (snd (pixelLookup d w x y)))"
    and "normalized (fst (snd (snd (pixelLookup d w x y))))"
    and "normalized (snd (snd (snd (pixelLookup d w x y))))"
    using r g b a by (simp_all add: pixelLookup_def Let_def)
  show "normalized (colorValue (pixelLookup d w x y))"
    using colorValue_normalized[OF r g b] by (simp add: pixelLookup_def Let_def)
qed

lemma brightness_normalized:
  assumes "length d = 4 * w * h" "0 \<le> x" "x < int w" "0 \<le> y" "y < int h"
  shows "normalized (getBrightnessAtPoint (Some d) w x (Some y))"
proof -
  note i = index_in_frame[OF assms, unfolded pixelIndex_def]
  let ?k = "(y * int w + x) * 4"
  obtain r where r: "byteAt d ?k = Some r" "0 \<le> r" "r \<le> 255"
    using byteAt_in_buffer[of ?k d] i by auto
  obtain g where g: "byteAt d (?k + 1) = Some g" "0 \<le> g" "g \<le> 255"
    using byteAt_in_buffer[of "?k + 1" d] i by auto
  obtain b where b: "byteAt d (?k + 2) = Some b" "0 \<le> b" "b \<le> 255"
    using byteAt_in_buffer[of "?k + 2" d] i by auto
  show ?thesis using r g b by (simp add: getBrightnessAtPoint_def Let_def normalized_def)
qed

lemma clampCoord_range: "1 \<le> n \<Longrightarrow> withinAxis n (clampCoord n v)"
  by (simp add: clampCoord_def withinAxis_def)

lemma byteAt_value:
  assumes "0 \<le> k" "k + j < int (length d)" "0 \<le> j"
  shows "byteAt d (k + j) = Some (real (unat (d ! (nat k + nat j))))"
  using assms by (simp add: byteAt_def nat_add_distrib)

lemma brightness_in_frame:
  assumes "length d = 4 * w * h" "0 \<le> x" "x < int w" "0 \<le> y" "y < int h"
  shows "getBrightnessAtPoint (Some d) w x (Some y) =
     (let k = nat ((y * int w + x) * 4)
      in Some ((real (unat (d ! k)) + real (unat (d ! (k + 1))) + real (unat (d ! (k + 2))))
                / (3 * 255)))"
proof -
  note i = index_in_frame[OF assms, unfolded pixelIndex_def]
  let ?k = "(y * int w + x) * 4"
  have b0: "byteAt d ?k = Some (real (unat (d ! nat ?k)))"
    using byteAt_value[of ?k 0 d] i by simp
  have b1: "byteAt d (?k + 1) = Some (real (unat (d ! (nat ?k + 1))))"
    using byteAt_value[of ?k 1 d] i by simp
  have b2: "byteAt d (?k + 2) = Some (real (unat (d ! (nat ?k + 2))))"
    using byteAt_value[of ?k 2 d] i by simp
  show ?thesis using b0 b1 b2 by (simp add: getBrightnessAtPoint_def Let_def)
qed

subsection \<open>The contrast window\<close>

lemma windowOffsets_first: "windowOffsets = (- 5, - 5) # tl windowOffsets"
  by (simp add: windowOffsets_def radius_def upto.simps)

lemma window_brightness:
  assumes "length d = 4 * w * h" "1 \<le> w" "1 \<le> h"
  obtains br where
    "getBrightnessAtPoint (Some d) w (clampCoord w (x + dx)) (Some (clampCoord h (y + dy))) = Some br"
    and "0 \<le> br * 255" and "br * 255 \<le> 255"
proof -
  have cx: "0 \<le> clampCoord w (x + dx)" "clampCoord w (x + dx) < int w"
    using clampCoord_range[OF assms(2), of "x + dx"] by (simp_all add: withinAxis_def)
  have cy: "0 \<le> clampCoord h (y + dy)" "clampCoord h (y + dy) < int h"
    using clampCoord_range[OF assms(3), of "y + dy"] by (simp_all add: withinAxis_def)
  from brightness_normalized[OF assms(1) cx cy]
  obtain br where br: "getBrightnessAtPoint (Some d) w (clampCoord w (x + dx)) (Some (clampCoord h (y + dy))) = Some br"
    "0 \<le> br" "br \<le> 1"
    by (auto simp: normalized_def split: option.splits)
  have "0 \<le> br * 255" "br * 255 \<le> 255" using br by simp_all
  with br(1) show ?thesis using that by blast
qed

lemma contrastStep_first:
  assumes "length d = 4 * w * h" "1 \<le> w" "1 \<le> h"
  shows "contrastBounds (contrastStep (Some d) \<lparr>width = w, height = h\<rparr> x (Some y) off (Some 255, Some 0))"
proof -
  obtain br where br:
    "getBrightnessAtPoint (Some d) w (clampCoord w (x + fst off)) (Some (clampCoord h (y + snd off))) = Some br"
    "0 \<le> br * 255" "br * 255 \<le> 255"
    using window_brightness[OF assms, of x "fst off" y "snd off"] by blast
  have "contrastStep (Some d) \<lparr>width = w, height = h\<rparr> x (Some y) off (Some 255, Some 0)
          = (Some (min 255 (br * 255)), Some (max 0 (br * 255)))"
    by (simp add: contrastStep_def Let_def jsMin_def jsMax_def br(1))
  then show ?thesis using br(2,3) by (simp add: contrastBounds_def min_def max_def)
qed

lemma contrastStep_keeps:
  assumes "length d = 4 * w * h" "1 \<le> w" "1 \<le> h" "contrastBounds acc"
  shows "contrastBounds (contrastStep (Some d) \<lparr>width = w, height = h\<rparr> x (Some y) off acc)"
proof -
  obtain br where br:
    "getBrightnessAtPoint (Some d) w (clampCoord w (x + fst off)) (Some (clampCoord h (y + snd off))) = Some br"
    "0 \<le> br * 255" "br * 255 \<le> 255"
    using window_brightness[OF assms(1-3), of x "fst off" y "snd off"] by blast
  obtain mn mx where acc: "acc = (Some mn, Some mx)" "0 \<le> mn" "mn \<le> mx" "mx \<le> 255"
    using assms(4) by (auto simp: contrastBounds_def split: prod.splits option.splits)
  have "contrastStep (Some d) \<lparr>width = w, height = h\<rparr> x (Some y) off acc
          = (Some (min mn (br * 255)), Some (max mx (br * 255)))"
    by (simp add: contrastStep_def Let_def jsMin_def jsMax_def br(1) acc(1))
  then show ?thesis using br(2,3) acc(2-4) by (simp add: contrastBounds_def min_def max_def)
qed

lemma contrast_fold_keeps:
  assumes "length d = 4 * w * h" "1 \<le> w" "1 \<le> h" "contrastBounds acc"
  shows "contrastBounds (fold (contrastStep (Some d) \<lparr>width = w, height = h\<rparr> x (Some y)) offs acc)"
  using assms(4)
proof (induction offs arbitrary: acc)
  case Nil
  then show ?case by simp
next
  case (Cons off offs)
  then show ?case using contrastStep_keeps[OF assms(1-3)] by simp
qed

lemma contrast_normalized:
  assumes "length d = 4 * w * h" "1 \<le> w" "1 \<le> h"
  shows "normalized (getContrastAroundPoint (Some d) \<lparr>width = w, height = h\<rparr> x (Some y))"
proof -
  let ?f = "contrastStep (Some d) \<lparr>width = w, height = h\<rparr> x (Some y)"
  have "fold ?f windowOffsets (Some 255, Some 0)
          = fold ?f (tl windowOffsets) (?f (- 5, - 5) (Some 255, Some 0))"
    by (subst windowOffsets_first) simp
  moreover have "contrastBounds (fold ?f (tl windowOffsets) (?f (- 5, - 5) (Some 255, Some 0)))"
    using contrast_fold_keeps[OF assms contrastStep_first[OF assms]] .
  ultimately have "contrastBounds (fold ?f windowOffsets (Some 255, Some 0))" by simp
  then obtain mn mx where m: "fold ?f windowOffsets (Some 255, Some 0) = (Some mn, Some mx)"
    "0 \<le> mn" "mn \<le> mx" "mx \<le> 255"
    by (auto simp: contrastBounds_def split: prod.splits option.splits)
  then show ?thesis by (simp add: getContrastAroundPoint_def normalized_def)
qed

lemma contrastStep_nan:
  "contrastStep (Some d) c x None off acc = (None, None)"
  by (simp add: contrastStep_def getBrightnessAtPoint_def jsMin_def jsMax_def Let_def
      split: option.splits)

lemma contrast_fold_nan:
  "fold (contrastStep (Some d) c x None) offs (None, None) = (None, None)"
  by (induction offs) (simp_all add: contrastStep_nan)

lemma contrast_nan: "getContrastAroundPoint (Some d) c x None = None"
proof -
  have "fold (contrastStep (Some d) c x None) windowOffsets (Some 255, Some 0) = (None, None)"
    by (subst windowOffsets_first) (simp add: contrastStep_nan contrast_fold_nan)
  then show ?thesis by (simp add: getContrastAroundPoint_def)
qed

lemma contrast_defined:
  assumes "frameFits img c"
  shows "\<exists>con. getContrastAroundPoint img c x (Some y) = Some con"
proof (cases img)
  case None
  then show ?thesis by (simp add: getContrastAroundPoint_def)
next
  case (Some d)
  then have f: "length d = 4 * width c * height c" "1 \<le> width c" "1 \<le> height c"
    using assms by (simp_all add: frameFits_def)
  have c: "c = \<lparr>width = width c, height = height c\<rparr>" by simp
  from contrast_normalized[OF f, of x y] c
  have "normalized (getContrastAroundPoint (Some d) c x (Some y))" by simp
  then show ?thesis using Some by (auto simp: normalized_def split: option.splits)
qed

text \<open>
  C8, as stated: for every integer coordinate pair the lookup clamps the coordinates to the
  frame and returns channel values within \<open>[0, 1]\<close>. Neither lookup clamps. On a frame of
  two by two pixels, row 2 is read past the end of the buffer, every channel is \<open>NaN\<close> and
  so is the brightness; column 2 of row 0 is read from row 1, where a clamped lookup
  would read column 1 of row 0.
\<close>

theorem pixel_lookup_counterexample:
  "length twoByTwo = 4 * 2 * 2
   \<and> pixelLookup twoByTwo 2 0 2 = (None, None, None, None)
   \<and> \<not> normalized (fst (pixelLookup twoByTwo 2 0 2))
   \<and> getBrightnessAtPoint (Some twoByTwo) 2 0 (Some 2) = None
   \<and> clampedLookup twoByTwo 2 2 0 2 = (Some (70 / 255), Some (80 / 255), Some (90 / 255), Some 1)
   \<and> pixelLookup twoByTwo 2 2 0 = (Some (70 / 255), Some (80 / 255), Some (90 / 255), Some 1)
   \<and> clampedLookup twoByTwo 2 2 2 0 = (Some (40 / 255), Some (50 / 255), Some (60 / 255), Some 1)"
  by (simp add: twoByTwo_def pixelLookup_def pixelIndex_def channel_def byteAt_def
      getBrightnessAtPoint_def clampedLookup_def clampCoord_def Let_def normalized_def)

text \<open>
  C8, amended: for every integer coordinate pair inside the frame, \<open>0 \<le> x < width\<close> and
  \<open>0 \<le> y < height\<close>, of a buffer of \<open>4 * width * height\<close> bytes, the lookup of
  AudioVisualizer.svelte returns four channel values within \<open>[0, 1]\<close> and a colour value within
  \<open>[0, 1]\<close>, and \<open>getBrightnessAtPoint\<close> of app.sveltep returns a brightness within \<open>[0, 1]\<close>.
  The lookups do not clamp; the contrast window of app.sveltep does: for every integer centre
  and every offset, a step of the window reads the brightness at the coordinates clamped to
  \<open>[0, width - 1]\<close> and \<open>[0, height - 1]\<close>, which is within \<open>[0, 1]\<close>, and the contrast of
  the window is within \<open>[0, 1]\<close>.
\<close>

theorem pixel_lookup_in_frame:
  assumes "length d = 4 * w * h" and "0 \<le> x" and "x < int w" and "0 \<le> y" and "y < int h"
  shows "normalized (fst (pixelLookup d w x y))
     \<and> normalized (fst (snd (pixelLookup d w x y)))
     \<and> normalized (fst (snd (snd (pixelLookup d w x y))))
     \<and> normalized (snd (snd (snd (pixelLookup d w x y))))
     \<and> normalized (colorValue (pixelLookup d w x y))
     \<and> normalized (getBrightnessAtPoint (Some d) w x (Some y))
     \<and> withinAxis w (clampCoord w x') \<and> withinAxis h (clampCoord h y')
     \<and> contrastStep (Some d) \<lparr>width = w, height = h\<rparr> x' (Some y') off acc
         = (let b = map_option (\<lambda>v. v * 255)
                      (getBrightnessAtPoint (Some d) w (clampCoord w (x' + fst off))
                         (Some (clampCoord h (y' + snd off))))
            in (jsMin (fst acc) b, jsMax (snd acc) b))
     \<and> normalized (getBrightnessAtPoint (Some d) w (clampCoord w (x' + fst off))
                     (Some (clampCoord h (y' + snd off))))
     \<and> normalized (getContrastAroundPoint (Some d) \<lparr>width = w, height = h\<rparr> x' (Some y'))"
proof -
  have wh: "1 \<le> w" "1 \<le> h" using assms by auto
  have cx: "0 \<le> clampCoord w (x' + fst off)" "clampCoord w (x' + fst off) < int w"
    using clampCoord_range[OF wh(1), of "x' + fst off"] by (simp_all add: withinAxis_def)
  have cy: "0 \<le> clampCoord h (y' + snd off)" "clampCoord h (y' + snd off) < int h"
    using clampCoord_range[OF wh(2), of "y' + snd off"] by (simp_all add: withinAxis_def)
  have s: "contrastStep (Some d) \<lparr>width = w, height = h\<rparr> x' (Some y') off acc
         = (let b = map_option (\<lambda>v. v * 255)
                      (getBrightnessAtPoint (Some d) w (clampCoord w (x' + fst off))
                         (Some (clampCoord h (y' + snd off))))
            in (jsMin (fst acc) b, jsMax (snd acc) b))"
    by (simp add: contrastStep_def Let_def)
  show ?thesis
    using pixelLookup_normalized[OF assms] brightness_normalized[OF assms]
      clampCoord_range[OF wh(1), of x'] clampCoord_range[OF wh(2), of y']
      brightness_normalized[OF assms(1) cx cy] contrast_normalized[OF assms(1) wh, of x' y'] s
    by (simp only: simp_thms)
qed

theorem pixel_lookup_in_frame_witness:
  "length twoByTwo = 4 * 2 * 2 \<and> (0::int) \<le> 1 \<and> (1::int) < int 2
   \<and> pixelLookup twoByTwo 2 1 1 = (Some (100 / 255), Some (110 / 255), Some (120 / 255), Some 1)
   \<and> normalized (fst (pixelLookup twoByTwo 2 1 1))
   \<and> normalized (colorValue (pixelLookup twoByTwo 2 1 1))
   \<and> normalized (getBrightnessAtPoint (Some twoByTwo) 2 1 (Some 1))
   \<and> clampCoord 2 5 = 1 \<and> withinAxis 2 (clampCoord 2 5)
   \<and> clampCoord 2 (5 + 5) = 1
   \<and> getBrightnessAtPoint (Some twoByTwo) 2 (clampCoord 2 (5 + 5)) (Some (clampCoord 2 (5 + 5)))
       = Some (330 / 765)
   \<and> normalized (getBrightnessAtPoint (Some twoByTwo) 2 (clampCoord 2 (5 + 5)) (Some (clampCoord 2 (5 + 5))))
   \<and> normalized (getContrastAroundPoint (Some twoByTwo) \<lparr>width = 2, height = 2\<rparr> 5 (Some 5))"
proof -
  have l: "length twoByTwo = 4 * 2 * 2" by (simp add: twoByTwo_def)
  have e: "pixelLookup twoByTwo 2 1 1 = (Some (100 / 255), Some (110 / 255), Some (120 / 255), Some 1)"
    by (simp add: twoByTwo_def pixelLookup_def pixelIndex_def channel_def byteAt_def Let_def)
  have c: "clampCoord 2 5 = 1" "clampCoord 2 (5 + 5) = 1" by (simp_all add: clampCoord_def)
  have b: "getBrightnessAtPoint (Some twoByTwo) 2 1 (Some 1) = Some (330 / 765)"
    by (simp add: getBrightnessAtPoint_def byteAt_def twoByTwo_def Let_def)
  from pixel_lookup_in_frame[where x = 1 and y = 1 and x' = 5 and y' = 5 and off = "(5, 5)", OF l] l e c b show ?thesis by simp
qed

section \<open>Properties of scan\<close>

lemma minTime_bounds:
  "1 / 10 - 1 / 2 ^ 53 \<le> minTimeBetweenNotes" "minTimeBetweenNotes \<le> 1 / 10 + 1 / 2 ^ 53"
  using roundDouble_abs[of "1 / 10"] by (simp_all add: minTimeBetweenNotes_def)

lemma gate_above:
  assumes "1 / 10 + 1 / 10 ^ 15 \<le> x"
  shows "minTimeBetweenNotes \<le> roundDouble x"
proof (cases "x \<le> 1")
  case True
  then have "\<bar>x\<bar> \<le> 1" using assms by simp
  from roundDouble_abs(1)[OF this] have "x - 1 / 2 ^ 53 \<le> roundDouble x" .
  then show ?thesis using minTime_bounds(2) assms by simp
next
  case False
  then have "1 / 2 ^ 26 \<le> x" by simp
  from roundDouble_rel(1)[OF this] have "x * (1 - 1 / 2 ^ 53) \<le> roundDouble x" .
  moreover have "1 * (1 - 1 / 2 ^ 53) \<le> x * (1 - 1 / 2 ^ 53)"
    using False by (intro mult_right_mono) auto
  ultimately show ?thesis using minTime_bounds(2) by simp
qed

lemma gate_below:
  assumes "0 \<le> x" "x \<le> 1 / 10 - 1 / 10 ^ 15"
  shows "\<not> minTimeBetweenNotes \<le> roundDouble x"
proof -
  have "\<bar>x\<bar> \<le> 1" using assms by simp
  from roundDouble_abs(2)[OF this] have "roundDouble x \<le> x + 1 / 2 ^ 53" .
  then show ?thesis using minTime_bounds(1) assms by simp
qed

lemma playPoints_ok:
  assumes "\<forall>p \<in> set ps. fst p < length vs \<and> isNumber (snd p)"
    and "frameFits (app_imageData st) c"
  shows "fst (playPoints bf t st c ps vs ons)
       \<and> length (fst (snd (playPoints bf t st c ps vs ons))) = length vs
       \<and> snd (snd (playPoints bf t st c ps vs ons))
           = ons @ map (\<lambda>p. (fst p, pointFrequency bf st c (snd p), t)) ps"
  using assms(1)
proof (induction ps arbitrary: vs ons)
  case Nil
  show ?case by simp
next
  case (Cons p ps)
  obtain index y where p: "p = (index, y)" by (cases p)
  have i: "index < length vs" using Cons.prems p by simp
  obtain y' where y: "y = Some y'" using Cons.prems p by (auto simp: isNumber_def)
  obtain con where con: "getContrastAroundPoint (app_imageData st) c \<lfloor>app_cursorPosition st\<rfloor> (Some y') = Some con"
    using contrast_defined[OF assms(2)] by blast
  let ?vs = "vs[index := playNote (0.005 + (1 - con) * 0.095) (0.1 + con * 0.9) (waveform st)
       (pointFrequency bf st c y) (vs ! index)]"
  have "\<forall>q \<in> set ps. fst q < length ?vs \<and> isNumber (snd q)" using Cons.prems by simp
  from Cons.IH[OF this, of "ons @ [(index, pointFrequency bf st c y, t)]"]
  show ?case using i p y con by (simp add: Let_def pointFrequency_def attackTime_def releaseTime_def)
qed

lemma zip_upt_fst: "\<forall>p \<in> set (zip [0..<length ys] ys). fst p < length ys"
  by (auto simp: set_zip)

lemma scan_playing:
  assumes "app_isPlaying st" "app_canvas st = Some c" "length (samplePoints st) \<le> length (app_synths st)"
    and "list_all isNumber (samplePoints st)" and "frameFits (app_imageData st) c"
  shows "onsets (scan bf t st)
           = (if roundDouble (t - lastPlayTime st) \<ge> minTimeBetweenNotes
              then map (\<lambda>p. (fst p, pointFrequency bf st c (snd p), t))
                     (zip [0..<length (samplePoints st)] (samplePoints st))
              else [])"
    and "lastPlayTime (after (scan bf t st))
           = (if roundDouble (t - lastPlayTime st) \<ge> minTimeBetweenNotes then t else lastPlayTime st)"
    and "app_isPlaying (after (scan bf t st))"
    and "app_canvas (after (scan bf t st)) = Some c"
    and "samplePoints (after (scan bf t st)) = samplePoints st"
    and "length (app_synths (after (scan bf t st))) = length (app_synths st)"
    and "(app_cursorPosition (after (scan bf t st)), direction (after (scan bf t st)))
           = bounceStep (real (width c)) (cursorSpeed st) (app_cursorPosition st, direction st)"
    and "app_imageData (after (scan bf t st)) = app_imageData st"
    and "app_scheduled (after (scan bf t st)) = (app_imageData st \<noteq> None)"
proof -
  let ?st = "st\<lparr>app_scheduled := False\<rparr>"
  have "\<forall>p \<in> set (zip [0..<length (samplePoints st)] (samplePoints st)).
          fst p < length (app_synths st) \<and> isNumber (snd p)"
  proof
    fix p assume p: "p \<in> set (zip [0..<length (samplePoints st)] (samplePoints st))"
    then have "fst p < length (samplePoints st)" using zip_upt_fst[of "samplePoints st"] by blast
    moreover have "snd p \<in> set (samplePoints st)" using p by (metis in_set_zipE prod.collapse)
    ultimately show "fst p < length (app_synths st) \<and> isNumber (snd p)"
      using assms(3,4) by (simp add: list_all_iff)
  qed
  moreover have "frameFits (app_imageData ?st) c" using assms(5) by simp
  ultimately have pp: "fst (playPoints bf t ?st c (zip [0..<length (samplePoints st)] (samplePoints st)) (app_synths st) [])
       \<and> length (fst (snd (playPoints bf t ?st c (zip [0..<length (samplePoints st)] (samplePoints st)) (app_synths st) []))) = length (app_synths st)
       \<and> snd (snd (playPoints bf t ?st c (zip [0..<length (samplePoints st)] (samplePoints st)) (app_synths st) []))
           = [] @ map (\<lambda>p. (fst p, pointFrequency bf ?st c (snd p), t)) (zip [0..<length (samplePoints st)] (samplePoints st))"
    by (rule playPoints_ok)
  have pf: "pointFrequency bf ?st c = pointFrequency bf st c" by (simp add: pointFrequency_def fun_eq_iff)
  show "onsets (scan bf t st)
           = (if roundDouble (t - lastPlayTime st) \<ge> minTimeBetweenNotes
              then map (\<lambda>p. (fst p, pointFrequency bf st c (snd p), t))
                     (zip [0..<length (samplePoints st)] (samplePoints st))
              else [])"
    using assms(1,2) pp pf by (simp add: scan_def onsets_def Let_def split: option.splits)
  show "lastPlayTime (after (scan bf t st))
           = (if roundDouble (t - lastPlayTime st) \<ge> minTimeBetweenNotes then t else lastPlayTime st)"
    using assms(1,2) pp by (simp add: scan_def after_def Let_def split: option.splits)
  show "app_isPlaying (after (scan bf t st))"
    using assms(1,2) pp by (simp add: scan_def after_def Let_def split: option.splits)
  show "app_canvas (after (scan bf t st)) = Some c"
    using assms(1,2) pp by (simp add: scan_def after_def Let_def split: option.splits)
  show "samplePoints (after (scan bf t st)) = samplePoints st"
    using assms(1,2) pp by (simp add: scan_def after_def Let_def split: option.splits)
  show "length (app_synths (after (scan bf t st))) = length (app_synths st)"
    using assms(1,2) pp by (simp add: scan_def after_def Let_def split: option.splits)
  show "(app_cursorPosition (after (scan bf t st)), direction (after (scan bf t st)))
           = bounceStep (real (width c)) (cursorSpeed st) (app_cursorPosition st, direction st)"
    using assms(1,2) pp by (simp add: scan_def after_def Let_def split: option.splits)
  show "app_imageData (after (scan bf t st)) = app_imageData st"
    using assms(1,2) pp by (simp add: scan_def after_def Let_def split: option.splits)
  show "app_scheduled (after (scan bf t st)) = (app_imageData st \<noteq> None)"
    using assms(1,2) pp by (simp add: scan_def after_def Let_def split: option.splits)
qed

lemma scan_fires_iff:
  assumes "app_isPlaying st" "app_canvas st = Some c" "samplePoints st \<noteq> []"
    "length (samplePoints st) \<le> length (app_synths st)"
    "list_all isNumber (samplePoints st)" "frameFits (app_imageData st) c"
  shows "(onsets (scan bf t st) \<noteq> []) = (roundDouble (t - lastPlayTime st) \<ge> minTimeBetweenNotes)"
  using scan_playing(1)[OF assms(1,2,4,5,6), of bf t] assms(3) by simp

text \<open>
  C9, as stated: while playing, an onset fires on a tick exactly when the current time is at
  least 0.1 seconds after the last onset. With \<open>numberOfNotes\<close> 1 the one sample point is
  \<open>NaN\<close>, and so are the contrast and the envelope times; \<open>set\<close> throws before the note is
  triggered. A tick one second after the last onset fires nothing, and the exception ends
  the loop.
\<close>

theorem onset_gate_counterexample:
  "app_isPlaying oneNote \<and> app_canvas oneNote = Some \<lparr>width = 2, height = 2\<rparr>
   \<and> samplePoints oneNote = [None] \<and> app_synths oneNote = [toneSynth]
   \<and> (1::real) - lastPlayTime oneNote \<ge> 0.1
   \<and> roundDouble (1 - lastPlayTime oneNote) \<ge> minTimeBetweenNotes
   \<and> scan 196 1 oneNote = (Threw, oneNote\<lparr>app_scheduled := False\<rparr>, [])
   \<and> onsets (scan 196 1 oneNote) = []
   \<and> \<not> app_scheduled (after (scan 196 1 oneNote))"
proof -
  have m: "minTimeBetweenNotes \<le> 1" using minTime_bounds(2) by simp
  have o: "oneNote = playingDemo\<lparr>numberOfNotes := 1, app_synths := [toneSynth], samplePoints := [None]\<rparr>"
    by (simp add: oneNote_def updateSynths_def updateSamplePoints_def playingDemo_def spacedPoint_def)
  have s: "scan 196 1 oneNote = (Threw, oneNote\<lparr>app_scheduled := False\<rparr>, [])"
    using m by (simp add: o scan_def playingDemo_def Let_def contrast_nan attackTime_def releaseTime_def)
  show ?thesis using m s by (simp add: onsets_def after_def) (simp add: o playingDemo_def)
qed

text \<open>
  C9, amended: while playing, with a canvas, at least one sample point, every sample point a
  number, a voice for every sample point and image data (if any) of the size of the canvas, a
  tick fires onsets if and only if the difference of the current time and \<open>lastPlayTime\<close>,
  as the machine rounds it, is at least the double next to 0.1. So it fires when the time
  since the last onset (or since pressing play) is at least \<open>0.1 + 10^-15\<close> seconds and does
  not fire when it is between 0 and \<open>0.1 - 10^-15\<close> seconds; and after a tick that fired at
  \<open>t\<close>, a tick up to \<open>0.1 - 10^-15\<close> seconds later (0.05, say) fires nothing and the tick after
  it, at least \<open>0.1 + 10^-15\<close> seconds after \<open>t\<close> (0.12, say), fires.
\<close>

theorem onset_gate:
  assumes "app_isPlaying st" and "app_canvas st = Some c" and "samplePoints st \<noteq> []"
    and "length (samplePoints st) \<le> length (app_synths st)"
    and "list_all isNumber (samplePoints st)" and "frameFits (app_imageData st) c"
  shows "(onsets (scan bf t st) \<noteq> []) = (roundDouble (t - lastPlayTime st) \<ge> minTimeBetweenNotes)
     \<and> (1 / 10 + 1 / 10 ^ 15 \<le> t - lastPlayTime st \<longrightarrow> onsets (scan bf t st) \<noteq> [])
     \<and> (0 \<le> t - lastPlayTime st \<and> t - lastPlayTime st \<le> 1 / 10 - 1 / 10 ^ 15 \<longrightarrow>
          onsets (scan bf t st) = [])
     \<and> (onsets (scan bf t st) \<noteq> [] \<and> 0 \<le> t2 - t \<and> t2 - t \<le> 1 / 10 - 1 / 10 ^ 15
          \<and> 1 / 10 + 1 / 10 ^ 15 \<le> t3 - t \<longrightarrow>
          onsets (scan bf t2 (after (scan bf t st))) = []
          \<and> onsets (scan bf t3 (after (scan bf t2 (after (scan bf t st))))) \<noteq> [])"
proof (intro conjI impI)
  show iff: "(onsets (scan bf t st) \<noteq> []) = (roundDouble (t - lastPlayTime st) \<ge> minTimeBetweenNotes)"
    using assms by (rule scan_fires_iff)
  show "onsets (scan bf t st) \<noteq> []" if "1 / 10 + 1 / 10 ^ 15 \<le> t - lastPlayTime st"
    using iff gate_above[OF that] by simp
  show "onsets (scan bf t st) = []"
    if "0 \<le> t - lastPlayTime st \<and> t - lastPlayTime st \<le> 1 / 10 - 1 / 10 ^ 15"
    using iff gate_below[of "t - lastPlayTime st"] that by simp
next
  assume a: "onsets (scan bf t st) \<noteq> [] \<and> 0 \<le> t2 - t \<and> t2 - t \<le> 1 / 10 - 1 / 10 ^ 15
          \<and> 1 / 10 + 1 / 10 ^ 15 \<le> t3 - t"
  have iff: "(onsets (scan bf t st) \<noteq> []) = (roundDouble (t - lastPlayTime st) \<ge> minTimeBetweenNotes)"
    using assms by (rule scan_fires_iff)
  then have due: "roundDouble (t - lastPlayTime st) \<ge> minTimeBetweenNotes" using a by simp
  let ?st1 = "after (scan bf t st)"
  note k = scan_playing[OF assms(1,2,4,5,6), of bf t]
  have p1: "app_isPlaying ?st1" "app_canvas ?st1 = Some c" "samplePoints ?st1 \<noteq> []"
    "length (samplePoints ?st1) \<le> length (app_synths ?st1)"
    "list_all isNumber (samplePoints ?st1)" "frameFits (app_imageData ?st1) c"
    using k assms by simp_all
  have l1: "lastPlayTime ?st1 = t" using k(2) due by simp
  have n2: "\<not> minTimeBetweenNotes \<le> roundDouble (t2 - t)"
    using gate_below[of "t2 - t"] a by simp
  show "onsets (scan bf t2 ?st1) = []"
    using scan_fires_iff[OF p1, of bf t2] l1 n2 by simp
  let ?st2 = "after (scan bf t2 ?st1)"
  note k2 = scan_playing[OF p1(1,2,4,5,6), of bf t2]
  have p2: "app_isPlaying ?st2" "app_canvas ?st2 = Some c" "samplePoints ?st2 \<noteq> []"
    "length (samplePoints ?st2) \<le> length (app_synths ?st2)"
    "list_all isNumber (samplePoints ?st2)" "frameFits (app_imageData ?st2) c"
    using k2 p1 by simp_all
  have l2: "lastPlayTime ?st2 = t" using k2(2) l1 n2 by simp
  have d3: "minTimeBetweenNotes \<le> roundDouble (t3 - t)" using gate_above[of "t3 - t"] a by simp
  show "onsets (scan bf t3 ?st2) \<noteq> []"
    using scan_fires_iff[OF p2, of bf t3] l2 d3 by simp
qed

theorem onset_gate_witness:
  "app_isPlaying playingDemo \<and> app_canvas playingDemo = Some \<lparr>width = 2, height = 2\<rparr>
   \<and> samplePoints playingDemo \<noteq> []
   \<and> length (samplePoints playingDemo) \<le> length (app_synths playingDemo)
   \<and> list_all isNumber (samplePoints playingDemo)
   \<and> frameFits (app_imageData playingDemo) \<lparr>width = 2, height = 2\<rparr>
   \<and> 1 / 10 + 1 / 10 ^ 15 \<le> (1::real) - lastPlayTime playingDemo
   \<and> roundDouble (1 - lastPlayTime playingDemo) \<ge> minTimeBetweenNotes
   \<and> onsets (scan 196 1 playingDemo) \<noteq> []
   \<and> onsets (scan 196 (105 / 100) (after (scan 196 1 playingDemo))) = []
   \<and> onsets (scan 196 (112 / 100) (after (scan 196 (105 / 100) (after (scan 196 1 playingDemo))))) \<noteq> []"
proof -
  have h: "app_isPlaying playingDemo" "app_canvas playingDemo = Some \<lparr>width = 2, height = 2\<rparr>"
    "samplePoints playingDemo \<noteq> []"
    "length (samplePoints playingDemo) \<le> length (app_synths playingDemo)"
    "list_all isNumber (samplePoints playingDemo)"
    "frameFits (app_imageData playingDemo) \<lparr>width = 2, height = 2\<rparr>"
    by (simp_all add: playingDemo_def isNumber_def frameFits_def twoByTwo_def)
  have d: "1 / 10 + 1 / 10 ^ 15 \<le> (1::real) - lastPlayTime playingDemo" by (simp add: playingDemo_def)
  have t: "(0::real) \<le> 105 / 100 - 1" "(105 / 100 - 1 :: real) \<le> 1 / 10 - 1 / 10 ^ 15"
    "(1 / 10 + 1 / 10 ^ 15 :: real) \<le> 112 / 100 - 1" by simp_all
  from onset_gate[OF h, of 196 1 "105 / 100" "112 / 100"] h d t show ?thesis by blast
qed

section \<open>Properties of one tick\<close>

lemma voiceFrequency_in_frame:
  assumes "length d = 4 * w * h" and "0 \<le> pos" and "pos < real w"
    and "1 \<le> h" and "h \<le> 2 ^ 24" and "c_voiceCount c \<le> 2 ^ 24" and "i < c_voiceCount c"
    and "noteFrequencies (c_baseNote c) = Some f0"
  shows "voiceFrequency c d w h pos i =
     (let k = nat ((samplePointY h (c_voiceCount c) i * int w + \<lfloor>pos\<rfloor>) * 4)
      in Some (f0 * 2 powr (real_of_int (c_octave c) - 4
           + (real (unat (d ! k)) / 255 + real (unat (d ! (k + 1))) / 255
              + real (unat (d ! (k + 2))) / 255) / 3)))"
proof -
  let ?y = "samplePointY h (c_voiceCount c) i"
  have v: "1 \<le> c_voiceCount c" using assms(7) by simp
  have y: "0 \<le> ?y" "?y < int h"
    using samplePointY_range[OF assms(4) v assms(5,6,7)] by (simp_all add: withinAxis_def)
  have x: "0 \<le> \<lfloor>pos\<rfloor>" "\<lfloor>pos\<rfloor> < int w" using assms(2,3) by (simp_all add: floor_less_iff)
  note i = index_in_frame[OF assms(1) x y]
  let ?k = "pixelIndex w \<lfloor>pos\<rfloor> ?y"
  have b0: "byteAt d ?k = Some (real (unat (d ! nat ?k)))"
    using byteAt_value[of ?k 0 d] i by simp
  have b1: "byteAt d (?k + 1) = Some (real (unat (d ! (nat ?k + 1))))"
    using byteAt_value[of ?k 1 d] i by simp
  have b2: "byteAt d (?k + 2) = Some (real (unat (d ! (nat ?k + 2))))"
    using byteAt_value[of ?k 2 d] i by simp
  have k: "?k = (?y * int w + \<lfloor>pos\<rfloor>) * 4" by (simp add: pixelIndex_def)
  show ?thesis
    unfolding voiceFrequency_def pixelLookup_def Let_def channel_def b0 b1 b2 colorValue_def
      glideFrequency_def assms(8) k[symmetric]
    by simp
qed

lemma voiceFrequency_explicit:
  "voiceFrequency c d w h pos i =
     (let y = \<lfloor>roundDouble (roundDouble (real h / real (c_voiceCount c)) * roundDouble (real i + 0.5))\<rfloor>;
          k = (y * int w + \<lfloor>pos\<rfloor>) * 4
      in if 0 \<le> k \<and> k + 2 < int (length d)
         then map_option
                (\<lambda>f0. f0 * 2 powr (real_of_int (c_octave c) - 4
                     + (real (unat (d ! nat k)) / 255 + real (unat (d ! nat (k + 1))) / 255
                        + real (unat (d ! nat (k + 2))) / 255) / 3))
                (noteFrequencies (c_baseNote c))
         else None)"
  by (cases "noteFrequencies (c_baseNote c)")
     (simp_all add: voiceFrequency_def samplePointY_def pixelLookup_def pixelIndex_def channel_def
       byteAt_def colorValue_def glideFrequency_def Let_def)

lemma driveVoices_fst:
  "fst (driveVoices c d w h pos is vs)
     = (\<forall>i \<in> set is. i < length vs \<longrightarrow> voiceFrequency c d w h pos i \<noteq> None)"
proof (induction "is" arbitrary: vs)
  case Nil
  show ?case by simp
next
  case (Cons i "is")
  show ?case
  proof (cases "i < length vs")
    case True
    show ?thesis
    proof (cases "voiceFrequency c d w h pos i")
      case None
      then show ?thesis using True by simp
    next
      case (Some f)
      then show ?thesis using True Cons.IH[of "vs[i := rampTo f (vs ! i)]"] by simp
    qed
  next
    case False
    then show ?thesis using Cons.IH[of vs] by simp
  qed
qed

lemma driveVoices_ok:
  assumes "\<forall>i \<in> set is. i < length vs \<longrightarrow> voiceFrequency c d w h pos i \<noteq> None"
  shows "length (snd (driveVoices c d w h pos is vs)) = length vs
       \<and> (\<forall>k < length vs. frequency (snd (driveVoices c d w h pos is vs) ! k)
             = (if k \<in> set is then voiceFrequency c d w h pos k else frequency (vs ! k)))"
  using assms
proof (induction "is" arbitrary: vs)
  case Nil
  show ?case by simp
next
  case (Cons i "is")
  show ?case
  proof (cases "i < length vs")
    case True
    then obtain f where f: "voiceFrequency c d w h pos i = Some f" using Cons.prems by auto
    let ?vs = "vs[i := rampTo f (vs ! i)]"
    have r: "\<forall>j \<in> set is. j < length ?vs \<longrightarrow> voiceFrequency c d w h pos j \<noteq> None"
      using Cons.prems by simp
    have d: "driveVoices c d w h pos (i # is) vs = driveVoices c d w h pos is ?vs"
      using True f by simp
    note ih = Cons.IH[OF r]
    have "\<forall>k < length vs. frequency (snd (driveVoices c d w h pos is ?vs) ! k)
             = (if k \<in> set (i # is) then voiceFrequency c d w h pos k else frequency (vs ! k))"
    proof (intro allI impI)
      fix k assume k: "k < length vs"
      then have "frequency (snd (driveVoices c d w h pos is ?vs) ! k)
             = (if k \<in> set is then voiceFrequency c d w h pos k else frequency (?vs ! k))"
        using ih by simp
      moreover have "frequency (?vs ! k) = (if k = i then Some f else frequency (vs ! k))"
        using k by (simp add: rampTo_def nth_list_update)
      ultimately show "frequency (snd (driveVoices c d w h pos is ?vs) ! k)
             = (if k \<in> set (i # is) then voiceFrequency c d w h pos k else frequency (vs ! k))"
        using f by (cases "k = i") simp_all
    qed
    then show ?thesis using ih d by simp
  next
    case False
    then have d: "driveVoices c d w h pos (i # is) vs = driveVoices c d w h pos is vs" by simp
    have r: "\<forall>j \<in> set is. j < length vs \<longrightarrow> voiceFrequency c d w h pos j \<noteq> None"
      using Cons.prems by simp
    note ih = Cons.IH[OF r]
    have "\<forall>k < length vs. frequency (snd (driveVoices c d w h pos is vs) ! k)
             = (if k \<in> set (i # is) then voiceFrequency c d w h pos k else frequency (vs ! k))"
      using ih False by auto
    then show ?thesis using ih d by simp
  qed
qed

lemma ready_keeps:
  assumes "readySource (st\<lparr>scheduled := False\<rparr>) = Some (w, h, r)"
  shows "ctl r = ctl st" "cursorPosition r = cursorPosition st" "synths r = synths st"
  using assms by (auto simp: readySource_def split: if_splits option.splits)

lemma updateAudio_scheduled:
  assumes "readySource (st\<lparr>scheduled := False\<rparr>) = Some (w, h, r)"
  shows "scheduled (updateAudio g st)
     = (\<forall>i < c_voiceCount (ctl st). i < length (synths st) \<longrightarrow>
          voiceFrequency (ctl st) g w h (cursorPosition st) i \<noteq> None)"
proof -
  have r: "scheduled r = False"
    using assms by (auto simp: readySource_def split: if_splits option.splits)
  have "scheduled (updateAudio g st)
     = fst (driveVoices (ctl st) g w h (cursorPosition st) [0..<c_voiceCount (ctl st)] (synths st))"
    using assms ready_keeps[OF assms] r by (simp add: updateAudio_def Let_def)
  then show ?thesis by (auto simp: driveVoices_fst)
qed

lemma updateAudio_completed:
  assumes "readySource (st\<lparr>scheduled := False\<rparr>) = Some (w, h, r)"
    and "scheduled (updateAudio g st)"
  shows "overlay (updateAudio g st) = tickSamplePoints (ctl st) h (cursorPosition st)"
    and "cursorPosition (updateAudio g st)
           = advanceCursor (c_cursorSpeed (ctl st)) (real w) (cursorPosition st)"
    and "\<forall>i. i < c_voiceCount (ctl st) \<and> i < length (synths st) \<longrightarrow>
           frequency (synths (updateAudio g st) ! i) = voiceFrequency (ctl st) g w h (cursorPosition st) i"
proof -
  note c = ready_keeps[OF assms(1)]
  have a: "\<forall>i \<in> set [0..<c_voiceCount (ctl st)]. i < length (synths st) \<longrightarrow>
      voiceFrequency (ctl st) g w h (cursorPosition st) i \<noteq> None"
    using assms(2) updateAudio_scheduled[OF assms(1), of g] by auto
  then have f: "fst (driveVoices (ctl st) g w h (cursorPosition st) [0..<c_voiceCount (ctl st)] (synths st))"
    by (simp add: driveVoices_fst)
  note dv = driveVoices_ok[OF a]
  show "overlay (updateAudio g st) = tickSamplePoints (ctl st) h (cursorPosition st)"
    using assms(1) c f by (simp add: updateAudio_def Let_def)
  show "cursorPosition (updateAudio g st)
           = advanceCursor (c_cursorSpeed (ctl st)) (real w) (cursorPosition st)"
    using assms(1) c f by (simp add: updateAudio_def Let_def)
  show "\<forall>i. i < c_voiceCount (ctl st) \<and> i < length (synths st) \<longrightarrow>
           frequency (synths (updateAudio g st) ! i) = voiceFrequency (ctl st) g w h (cursorPosition st) i"
    using assms(1) c f dv by (simp add: updateAudio_def Let_def)
qed

lemma voiceFrequency_defined:
  assumes "length d = 4 * w * h" and "0 \<le> pos" and "pos < real w"
    and "1 \<le> h" and "h \<le> 2 ^ 24" and "c_voiceCount c \<le> 2 ^ 24" and "i < c_voiceCount c"
    and "noteFrequencies (c_baseNote c) \<noteq> None"
  shows "voiceFrequency c d w h pos i \<noteq> None"
proof -
  obtain f0 where "noteFrequencies (c_baseNote c) = Some f0" using assms(8) by auto
  from voiceFrequency_in_frame[OF assms(1-7) this] show ?thesis by (simp add: Let_def)
qed

lemma playPoints_cong:
  assumes "app_imageData a' = app_imageData a" "app_cursorPosition a' = app_cursorPosition a"
    "scale a' = scale a" "length vs' = length vs"
  shows "fst (playPoints bf t a' c ps vs' ons) = fst (playPoints bf t a c ps vs ons)
       \<and> snd (snd (playPoints bf t a' c ps vs' ons)) = snd (snd (playPoints bf t a c ps vs ons))"
  using assms(4)
proof (induction ps arbitrary: vs vs' ons)
  case Nil
  show ?case by simp
next
  case (Cons p ps)
  obtain index y where p: "p = (index, y)" by (cases p)
  show ?case
  proof (cases "getContrastAroundPoint (app_imageData a) c \<lfloor>app_cursorPosition a\<rfloor> y")
    case None
    then show ?thesis using p assms(1,2,3) Cons.prems
      by (simp add: Let_def attackTime_def releaseTime_def)
  next
    case (Some con)
    let ?f = "noteFrequency bf (scales (scale a))
        (getBrightnessAtPoint (app_imageData a) (width c) \<lfloor>app_cursorPosition a\<rfloor> y)"
    let ?n = "\<lambda>w v. playNote (0.005 + (1 - con) * 0.095) (0.1 + con * 0.9) w ?f v"
    have l: "length (vs'[index := ?n (waveform a') (vs' ! index)])
           = length (vs[index := ?n (waveform a) (vs ! index)])"
      using Cons.prems by simp
    from Cons.IH[OF l, of "ons @ [(index, ?f, t)]"]
    show ?thesis using p assms(1,2,3) Cons.prems Some
      by (simp add: Let_def attackTime_def releaseTime_def)
  qed
qed

lemma scan_onsets:
  "onsets (scan bf t a) =
     (case app_canvas a of
        None \<Rightarrow> []
      | Some c \<Rightarrow>
          if app_isPlaying a \<and> minTimeBetweenNotes \<le> roundDouble (t - lastPlayTime a)
          then snd (snd (playPoints bf t (a\<lparr>app_scheduled := False\<rparr>) c
                 (zip [0..<length (samplePoints a)] (samplePoints a)) (app_synths a) []))
          else [])"
  by (simp add: scan_def onsets_def Let_def split: option.splits)

lemma scan_onsets_cong:
  assumes "app_canvas a' = app_canvas a" "app_isPlaying a' = app_isPlaying a"
    "samplePoints a' = samplePoints a" "scale a' = scale a" "app_imageData a' = app_imageData a"
    "app_cursorPosition a' = app_cursorPosition a" "lastPlayTime a' = lastPlayTime a"
    "length (app_synths a') = length (app_synths a)"
  shows "onsets (scan bf t a') = onsets (scan bf t a)"
proof -
  have "snd (snd (playPoints bf t (a'\<lparr>app_scheduled := False\<rparr>) c ps (app_synths a') []))
      = snd (snd (playPoints bf t (a\<lparr>app_scheduled := False\<rparr>) c ps (app_synths a) []))" for c ps
    using playPoints_cong[of "a'\<lparr>app_scheduled := False\<rparr>" "a\<lparr>app_scheduled := False\<rparr>"
        "app_synths a'" "app_synths a" bf t c ps "[]"] assms
    by simp
  note pp = this
  show ?thesis
  proof (cases "app_canvas a")
    case None
    then show ?thesis using assms(1) by (simp add: scan_onsets)
  next
    case (Some c)
    then show ?thesis using assms(1,2,3,7) pp[of c] by (simp add: scan_onsets)
  qed
qed

lemma pointFrequency_in_frame:
  assumes "app_imageData a = Some d" "length d = 4 * width c * height c"
    "0 \<le> app_cursorPosition a" "app_cursorPosition a < real (width c)" "inFrame (height c) y"
  shows "pointFrequency bf a c y =
     (let k = nat ((the y * int (width c) + \<lfloor>app_cursorPosition a\<rfloor>) * 4);
          br = (real (unat (d ! k)) + real (unat (d ! (k + 1))) + real (unat (d ! (k + 2))))
                 / (3 * 255)
      in bf * 2 powr (real_of_int (scales (scale a)
                        ! nat \<lfloor>br * (real (length (scales (scale a))) - 1)\<rfloor>) / 12))"
proof -
  obtain y' where y: "y = Some y'" "0 \<le> y'" "y' < int (height c)"
    using assms(5) by (auto simp: inFrame_def withinAxis_def split: option.splits)
  have x: "0 \<le> \<lfloor>app_cursorPosition a\<rfloor>" "\<lfloor>app_cursorPosition a\<rfloor> < int (width c)"
    using assms(3,4) by (simp_all add: floor_less_iff)
  let ?k = "nat ((y' * int (width c) + \<lfloor>app_cursorPosition a\<rfloor>) * 4)"
  let ?br = "(real (unat (d ! ?k)) + real (unat (d ! (?k + 1))) + real (unat (d ! (?k + 2)))) / (3 * 255)"
  have b: "getBrightnessAtPoint (Some d) (width c) \<lfloor>app_cursorPosition a\<rfloor> (Some y') = Some ?br"
    using brightness_in_frame[OF assms(2) x y(2,3)] by (simp add: Let_def)
  have "normalized (Some ?br)"
    using brightness_normalized[OF assms(2) x y(2,3)] b by simp
  then have r: "0 \<le> ?br" "?br \<le> 1" by (simp_all add: normalized_def)
  show ?thesis
    unfolding pointFrequency_def assms(1) y(1) b Let_def option.sel
    by (rule noteFrequency_in_range[OF scales_nonempty r])
qed

lemma scan_onsets_in_frame:
  assumes "app_isPlaying a" "app_canvas a = Some c" "app_imageData a = Some d"
    "length d = 4 * width c * height c" "1 \<le> height c"
    "0 \<le> app_cursorPosition a" "app_cursorPosition a < real (width c)"
    "list_all (inFrame (height c)) (samplePoints a)"
    "length (samplePoints a) \<le> length (app_synths a)"
  shows "onsets (scan bf t a) =
     (if minTimeBetweenNotes \<le> roundDouble (t - lastPlayTime a)
      then map (\<lambda>p.
             (let k = nat ((the (snd p) * int (width c) + \<lfloor>app_cursorPosition a\<rfloor>) * 4);
                  br = (real (unat (d ! k)) + real (unat (d ! (k + 1))) + real (unat (d ! (k + 2))))
                         / (3 * 255)
              in (fst p,
                  bf * 2 powr (real_of_int (scales (scale a)
                        ! nat \<lfloor>br * (real (length (scales (scale a))) - 1)\<rfloor>) / 12),
                  t)))
             (zip [0..<length (samplePoints a)] (samplePoints a))
      else [])"
proof -
  have w: "1 \<le> width c" using assms(6,7) by (cases "width c") auto
  have ff: "frameFits (app_imageData a) c" using assms(3,4,5) w by (simp add: frameFits_def)
  have nb: "list_all isNumber (samplePoints a)"
    using assms(8) by (auto simp: list_all_iff inFrame_def isNumber_def split: option.splits)
  note k = scan_playing(1)[OF assms(1,2,9) nb ff, of bf t]
  have "(fst p, pointFrequency bf a c (snd p), t) =
      (let k = nat ((the (snd p) * int (width c) + \<lfloor>app_cursorPosition a\<rfloor>) * 4);
           br = (real (unat (d ! k)) + real (unat (d ! (k + 1))) + real (unat (d ! (k + 2))))
                         / (3 * 255)
       in (fst p,
           bf * 2 powr (real_of_int (scales (scale a)
                        ! nat \<lfloor>br * (real (length (scales (scale a))) - 1)\<rfloor>) / 12),
           t))"
    if "p \<in> set (zip [0..<length (samplePoints a)] (samplePoints a))" for p
  proof -
    have "snd p \<in> set (samplePoints a)" using that by (metis in_set_zipE prod.collapse)
    then have "inFrame (height c) (snd p)" using assms(8) by (simp add: list_all_iff)
    from pointFrequency_in_frame[OF assms(3,4,6,7) this, of bf] show ?thesis by (simp add: Let_def)
  qed
  then have "map (\<lambda>p. (fst p, pointFrequency bf a c (snd p), t))
                (zip [0..<length (samplePoints a)] (samplePoints a))
      = map (\<lambda>p.
             (let k = nat ((the (snd p) * int (width c) + \<lfloor>app_cursorPosition a\<rfloor>) * 4);
                  br = (real (unat (d ! k)) + real (unat (d ! (k + 1))) + real (unat (d ! (k + 2))))
                         / (3 * 255)
              in (fst p,
                  bf * 2 powr (real_of_int (scales (scale a)
                        ! nat \<lfloor>br * (real (length (scales (scale a))) - 1)\<rfloor>) / 12),
                  t)))
             (zip [0..<length (samplePoints a)] (samplePoints a))"
    by (intro map_cong) auto
  then show ?thesis using k by (simp only:)
qed

lemma demo_roundings:
  "roundDouble (1 / 2) = 1 / 2" "roundDouble (3 / 2) = 3 / 2" "roundDouble (5 / 2) = 5 / 2"
  "roundDouble (7 / 2) = 7 / 2" "roundDouble (1 / 4) = 1 / 4" "roundDouble (3 / 4) = 3 / 4"
  "roundDouble (5 / 4) = 5 / 4" "roundDouble (7 / 4) = 7 / 4"
  using roundDouble_half[of 1] roundDouble_half[of 3] roundDouble_half[of 5] roundDouble_half[of 7]
    quarter_exact[of 1] quarter_exact[of 3] quarter_exact[of 5] quarter_exact[of 7]
  by simp_all

text \<open>
  C10. One tick's computation per voice is deterministic, and nothing in it is random. In
  \<open>updateAudio\<close> the frequency computed for voice \<open>i\<close> depends on the controls, the grabbed
  pixels, the source size and the cursor position only: the row is
  \<open>floor(height / voiceCount * (i + 0.5))\<close> as the machine rounds it, on the cursor column
  \<open>floor(cursorPosition)\<close>, and the frequency is the base note's times 2 to the power of
  \<open>octave - 4\<close> plus the mean of the three colour channels there (\<open>NaN\<close> when the pixel is
  outside the buffer or the base note unknown). The tick completes exactly when no voice
  with a synth gets \<open>NaN\<close>, which is the case when the cursor is within a frame of the
  size of the buffer and the base note is one of the table; then it draws these sample points and ramps every voice to this
  frequency, so two runs from states with the same controls, cursor position and source size
  draw the same points and set the same frequencies, whatever else differs. Two runs of
  \<open>scan\<close> at the same time, from states with the same canvas, image, cursor position, sample
  points, scale, last onset time and number of synths, fire the same onsets; with the sample
  points within the frame the onsets are one per sample point, in order, at the frequency of
  the scale step the brightness at that point selects.
\<close>

theorem tick_deterministic:
  assumes "readySource (st\<lparr>scheduled := False\<rparr>) = Some (w, h, r)"
    and "readySource (st'\<lparr>scheduled := False\<rparr>) = Some (w, h, r')"
    and "ctl st' = ctl st" and "cursorPosition st' = cursorPosition st"
  shows "(\<forall>i < c_voiceCount (ctl st). voiceFrequency (ctl st') g w h (cursorPosition st') i
               = voiceFrequency (ctl st) g w h (cursorPosition st) i
            \<and> voiceFrequency (ctl st) g w h (cursorPosition st) i =
                (let y = \<lfloor>roundDouble (roundDouble (real h / real (c_voiceCount (ctl st)))
                                        * roundDouble (real i + 0.5))\<rfloor>;
                     k = (y * int w + \<lfloor>cursorPosition st\<rfloor>) * 4
                 in if 0 \<le> k \<and> k + 2 < int (length g)
                    then map_option
                           (\<lambda>f0. f0 * 2 powr (real_of_int (c_octave (ctl st)) - 4
                                + (real (unat (g ! nat k)) / 255 + real (unat (g ! nat (k + 1))) / 255
                                   + real (unat (g ! nat (k + 2))) / 255) / 3))
                           (noteFrequencies (c_baseNote (ctl st)))
                    else None))
     \<and> scheduled (updateAudio g st)
         = (\<forall>i < c_voiceCount (ctl st). i < length (synths st) \<longrightarrow>
              voiceFrequency (ctl st) g w h (cursorPosition st) i \<noteq> None)
     \<and> (scheduled (updateAudio g st) \<longrightarrow>
          overlay (updateAudio g st)
            = map (\<lambda>i. (\<lfloor>cursorPosition st\<rfloor>,
                         \<lfloor>roundDouble (roundDouble (real h / real (c_voiceCount (ctl st)))
                                        * roundDouble (real i + 0.5))\<rfloor>))
                [0..<c_voiceCount (ctl st)]
          \<and> (\<forall>i. i < c_voiceCount (ctl st) \<and> i < length (synths st) \<longrightarrow>
                frequency (synths (updateAudio g st) ! i)
                  = voiceFrequency (ctl st) g w h (cursorPosition st) i))
     \<and> (scheduled (updateAudio g st) \<and> scheduled (updateAudio g st') \<longrightarrow>
          overlay (updateAudio g st') = overlay (updateAudio g st)
          \<and> (\<forall>i. i < c_voiceCount (ctl st) \<and> i < length (synths st) \<and> i < length (synths st') \<longrightarrow>
                frequency (synths (updateAudio g st') ! i) = frequency (synths (updateAudio g st) ! i)))
     \<and> (length g = 4 * w * h \<and> 0 \<le> cursorPosition st \<and> cursorPosition st < real w
          \<and> 1 \<le> h \<and> h \<le> 2 ^ 24 \<and> c_voiceCount (ctl st) \<le> 2 ^ 24
          \<and> noteFrequencies (c_baseNote (ctl st)) \<noteq> None \<longrightarrow>
          scheduled (updateAudio g st) \<and> scheduled (updateAudio g st'))
     \<and> (app_canvas a' = app_canvas a \<and> app_isPlaying a' = app_isPlaying a
          \<and> samplePoints a' = samplePoints a \<and> scale a' = scale a
          \<and> app_imageData a' = app_imageData a \<and> app_cursorPosition a' = app_cursorPosition a
          \<and> lastPlayTime a' = lastPlayTime a \<and> length (app_synths a') = length (app_synths a) \<longrightarrow>
          onsets (scan bf t a') = onsets (scan bf t a))
     \<and> (app_isPlaying a \<and> app_canvas a = Some c \<and> app_imageData a = Some d
          \<and> length d = 4 * width c * height c \<and> 1 \<le> height c
          \<and> 0 \<le> app_cursorPosition a \<and> app_cursorPosition a < real (width c)
          \<and> list_all (inFrame (height c)) (samplePoints a)
          \<and> length (samplePoints a) \<le> length (app_synths a) \<longrightarrow>
          onsets (scan bf t a) =
            (if minTimeBetweenNotes \<le> roundDouble (t - lastPlayTime a)
             then map (\<lambda>p.
                    (let k = nat ((the (snd p) * int (width c) + \<lfloor>app_cursorPosition a\<rfloor>) * 4);
                         br = (real (unat (d ! k)) + real (unat (d ! (k + 1)))
                               + real (unat (d ! (k + 2)))) / (3 * 255)
                     in (fst p,
                         bf * 2 powr (real_of_int (scales (scale a)
                               ! nat \<lfloor>br * (real (length (scales (scale a))) - 1)\<rfloor>) / 12),
                         t)))
                    (zip [0..<length (samplePoints a)] (samplePoints a))
             else []))"
proof (intro conjI)
  show "\<forall>i < c_voiceCount (ctl st). voiceFrequency (ctl st') g w h (cursorPosition st') i
               = voiceFrequency (ctl st) g w h (cursorPosition st) i
            \<and> voiceFrequency (ctl st) g w h (cursorPosition st) i =
                (let y = \<lfloor>roundDouble (roundDouble (real h / real (c_voiceCount (ctl st)))
                                        * roundDouble (real i + 0.5))\<rfloor>;
                     k = (y * int w + \<lfloor>cursorPosition st\<rfloor>) * 4
                 in if 0 \<le> k \<and> k + 2 < int (length g)
                    then map_option
                           (\<lambda>f0. f0 * 2 powr (real_of_int (c_octave (ctl st)) - 4
                                + (real (unat (g ! nat k)) / 255 + real (unat (g ! nat (k + 1))) / 255
                                   + real (unat (g ! nat (k + 2))) / 255) / 3))
                           (noteFrequencies (c_baseNote (ctl st)))
                    else None)"
    using voiceFrequency_explicit[of "ctl st" g w h "cursorPosition st"] assms(3,4)
    by (simp only:) simp
  show "scheduled (updateAudio g st)
         = (\<forall>i < c_voiceCount (ctl st). i < length (synths st) \<longrightarrow>
              voiceFrequency (ctl st) g w h (cursorPosition st) i \<noteq> None)"
    by (rule updateAudio_scheduled[OF assms(1)])
  show "scheduled (updateAudio g st) \<longrightarrow>
          overlay (updateAudio g st)
            = map (\<lambda>i. (\<lfloor>cursorPosition st\<rfloor>,
                         \<lfloor>roundDouble (roundDouble (real h / real (c_voiceCount (ctl st)))
                                        * roundDouble (real i + 0.5))\<rfloor>))
                [0..<c_voiceCount (ctl st)]
          \<and> (\<forall>i. i < c_voiceCount (ctl st) \<and> i < length (synths st) \<longrightarrow>
                frequency (synths (updateAudio g st) ! i)
                  = voiceFrequency (ctl st) g w h (cursorPosition st) i)"
    using updateAudio_completed(1,3)[OF assms(1), of g]
    by (simp add: tickSamplePoints_def samplePointY_def)
  show "scheduled (updateAudio g st) \<and> scheduled (updateAudio g st') \<longrightarrow>
          overlay (updateAudio g st') = overlay (updateAudio g st)
          \<and> (\<forall>i. i < c_voiceCount (ctl st) \<and> i < length (synths st) \<and> i < length (synths st') \<longrightarrow>
                frequency (synths (updateAudio g st') ! i) = frequency (synths (updateAudio g st) ! i))"
    using updateAudio_completed(1,3)[OF assms(1), of g] updateAudio_completed(1,3)[OF assms(2), of g]
      assms(3,4)
    by simp
  show "length g = 4 * w * h \<and> 0 \<le> cursorPosition st \<and> cursorPosition st < real w
          \<and> 1 \<le> h \<and> h \<le> 2 ^ 24 \<and> c_voiceCount (ctl st) \<le> 2 ^ 24
          \<and> noteFrequencies (c_baseNote (ctl st)) \<noteq> None \<longrightarrow>
          scheduled (updateAudio g st) \<and> scheduled (updateAudio g st')"
  proof
    assume a: "length g = 4 * w * h \<and> 0 \<le> cursorPosition st \<and> cursorPosition st < real w
          \<and> 1 \<le> h \<and> h \<le> 2 ^ 24 \<and> c_voiceCount (ctl st) \<le> 2 ^ 24
          \<and> noteFrequencies (c_baseNote (ctl st)) \<noteq> None"
    have "voiceFrequency (ctl st) g w h (cursorPosition st) i \<noteq> None"
      if "i < c_voiceCount (ctl st)" for i
      using a that by (intro voiceFrequency_defined) simp_all
    then show "scheduled (updateAudio g st) \<and> scheduled (updateAudio g st')"
      using updateAudio_scheduled[OF assms(1), of g] updateAudio_scheduled[OF assms(2), of g]
        assms(3,4)
      by simp
  qed
  show "app_canvas a' = app_canvas a \<and> app_isPlaying a' = app_isPlaying a
          \<and> samplePoints a' = samplePoints a \<and> scale a' = scale a
          \<and> app_imageData a' = app_imageData a \<and> app_cursorPosition a' = app_cursorPosition a
          \<and> lastPlayTime a' = lastPlayTime a \<and> length (app_synths a') = length (app_synths a) \<longrightarrow>
          onsets (scan bf t a') = onsets (scan bf t a)"
    using scan_onsets_cong[of a' a bf t] by blast
  show "app_isPlaying a \<and> app_canvas a = Some c \<and> app_imageData a = Some d
          \<and> length d = 4 * width c * height c \<and> 1 \<le> height c
          \<and> 0 \<le> app_cursorPosition a \<and> app_cursorPosition a < real (width c)
          \<and> list_all (inFrame (height c)) (samplePoints a)
          \<and> length (samplePoints a) \<le> length (app_synths a) \<longrightarrow>
          onsets (scan bf t a) =
            (if minTimeBetweenNotes \<le> roundDouble (t - lastPlayTime a)
             then map (\<lambda>p.
                    (let k = nat ((the (snd p) * int (width c) + \<lfloor>app_cursorPosition a\<rfloor>) * 4);
                         br = (real (unat (d ! k)) + real (unat (d ! (k + 1)))
                               + real (unat (d ! (k + 2)))) / (3 * 255)
                     in (fst p,
                         bf * 2 powr (real_of_int (scales (scale a)
                               ! nat \<lfloor>br * (real (length (scales (scale a))) - 1)\<rfloor>) / 12),
                         t)))
                    (zip [0..<length (samplePoints a)] (samplePoints a))
             else [])"
    using scan_onsets_in_frame[of a c d bf t] by blast
qed

theorem tick_deterministic_witness:
  "readySource (imageLoaded\<lparr>scheduled := False\<rparr>) = Some (2, 2, imageLoaded\<lparr>scheduled := False\<rparr>)
   \<and> length twoByTwo = 4 * 2 * 2 \<and> cursorPosition imageLoaded = 0
   \<and> noteFrequencies (c_baseNote (ctl imageLoaded)) = Some 261.63
   \<and> scheduled (updateAudio twoByTwo imageLoaded)
   \<and> overlay (updateAudio twoByTwo imageLoaded) = [(0, 0), (0, 0), (0, 1), (0, 1)]
   \<and> overlay (updateAudio twoByTwo (imageLoaded\<lparr>synths := replicate 4 toneSynth, isPlaying := False\<rparr>))
       = overlay (updateAudio twoByTwo imageLoaded)
   \<and> frequency (synths (updateAudio twoByTwo imageLoaded) ! 2)
       = Some (261.63 * 2 powr ((70 / 255 + 80 / 255 + 90 / 255) / 3))
   \<and> frequency (synths (updateAudio twoByTwo (imageLoaded\<lparr>synths := replicate 4 toneSynth, isPlaying := False\<rparr>)) ! 2)
       = frequency (synths (updateAudio twoByTwo imageLoaded) ! 2)
   \<and> list_all (inFrame 2) (samplePoints playingDemo)
   \<and> onsets (scan 196 1 (playingDemo\<lparr>waveform := ''square'', cursorSpeed := 3\<rparr>))
       = onsets (scan 196 1 playingDemo)
   \<and> onsets (scan 196 1 playingDemo) = [(0, 196, 1), (1, 196 * 2 powr (4 / 12), 1)]"
proof -
  let ?st' = "imageLoaded\<lparr>synths := replicate 4 toneSynth, isPlaying := False\<rparr>"
  let ?a' = "playingDemo\<lparr>waveform := ''square'', cursorSpeed := 3\<rparr>"
  have r1: "readySource (imageLoaded\<lparr>scheduled := False\<rparr>) = Some (2, 2, imageLoaded\<lparr>scheduled := False\<rparr>)"
    by (simp add: readySource_def imageLoaded_def startAudio_def mounted_def)
  have r2: "readySource (?st'\<lparr>scheduled := False\<rparr>) = Some (2, 2, ?st'\<lparr>scheduled := False\<rparr>)"
    by (simp add: readySource_def imageLoaded_def startAudio_def mounted_def)
  have c: "ctl ?st' = ctl imageLoaded" "cursorPosition ?st' = cursorPosition imageLoaded" by simp_all
  have v: "c_voiceCount (ctl imageLoaded) = 4" "cursorPosition imageLoaded = 0"
    "length (synths imageLoaded) = 4" "c_baseNote (ctl imageLoaded) = ''C''"
    "c_octave (ctl imageLoaded) = 4"
    by (simp_all add: imageLoaded_def startAudio_def mounted_def initialControls_def)
  have n: "noteFrequencies ''C'' = Some 261.63" by (simp add: noteFrequencies_def)
  have l: "length twoByTwo = 4 * 2 * 2" by (simp add: twoByTwo_def)
  have u: "[0..<4] = [0, 1, 2, 3]" by (simp add: upt_rec)
  have p: "app_isPlaying playingDemo" "app_canvas playingDemo = Some \<lparr>width = 2, height = 2\<rparr>"
    "app_imageData playingDemo = Some twoByTwo" "app_cursorPosition playingDemo = 0"
    "samplePoints playingDemo = [Some 0, Some 1]" "length (app_synths playingDemo) = 2"
    "scale playingDemo = major" "lastPlayTime playingDemo = 0"
    by (simp_all add: playingDemo_def)
  have i: "list_all (inFrame 2) (samplePoints playingDemo)"
    by (simp add: p inFrame_def withinAxis_def)
  have m: "minTimeBetweenNotes \<le> 1" using minTime_bounds(2) by simp
  note T = tick_deterministic[OF r1 r2 c, where g = twoByTwo and a = playingDemo and a' = ?a'
      and bf = 196 and t = 1 and c = "\<lparr>width = 2, height = 2\<rparr>" and d = twoByTwo]
  note A = T[THEN conjunct1]
  note C = T[THEN conjunct2, THEN conjunct2, THEN conjunct1]
  note D = T[THEN conjunct2, THEN conjunct2, THEN conjunct2, THEN conjunct1]
  note E = T[THEN conjunct2, THEN conjunct2, THEN conjunct2, THEN conjunct2, THEN conjunct1]
  note F = T[THEN conjunct2, THEN conjunct2, THEN conjunct2, THEN conjunct2, THEN conjunct2,
      THEN conjunct1]
  note G = T[THEN conjunct2, THEN conjunct2, THEN conjunct2, THEN conjunct2, THEN conjunct2,
      THEN conjunct2]
  have s: "scheduled (updateAudio twoByTwo imageLoaded)" "scheduled (updateAudio twoByTwo ?st')"
    using E l v n by simp_all
  have f: "voiceFrequency (ctl imageLoaded) twoByTwo 2 2 0 2
       = Some (261.63 * 2 powr ((70 / 255 + 80 / 255 + 90 / 255) / 3))"
    using A[THEN spec, of 2] by (simp add: v n demo_roundings Let_def twoByTwo_def)
  have o: "overlay (updateAudio twoByTwo imageLoaded) = [(0, 0), (0, 0), (0, 1), (0, 1)]"
    using C s v u by (simp add: demo_roundings)
  have o': "overlay (updateAudio twoByTwo ?st') = overlay (updateAudio twoByTwo imageLoaded)"
    using D s by simp
  have g: "frequency (synths (updateAudio twoByTwo imageLoaded) ! 2)
       = Some (261.63 * 2 powr ((70 / 255 + 80 / 255 + 90 / 255) / 3))"
    using C s v f by simp
  have g': "frequency (synths (updateAudio twoByTwo ?st') ! 2)
       = frequency (synths (updateAudio twoByTwo imageLoaded) ! 2)"
    using D s v by simp
  have e: "onsets (scan 196 1 ?a') = onsets (scan 196 1 playingDemo)"
    using F by simp
  have b0: "\<lfloor>((10::real) + 20 + 30) / (3 * 255) * (real (length (scales major)) - 1)\<rfloor> = 0"
    by (simp add: floor_eq_iff)
  have b1: "\<lfloor>((70::real) + 80 + 90) / (3 * 255) * (real (length (scales major)) - 1)\<rfloor> = 2"
    by (simp add: floor_eq_iff)
  have x: "onsets (scan 196 1 playingDemo) = [(0, 196, 1), (1, 196 * 2 powr (4 / 12), 1)]"
    using G i m l b0 b1 by (simp add: p Let_def upt_rec) (simp add: twoByTwo_def)
  show ?thesis using r1 l v n s o o' g g' i e x by simp
qed

end
